theory Spec2Isabelle
  imports Main "HOL-Library.Char_ord" "HOL-Library.Sublist"
begin

section \<open>Strings and the string primitives used by \<open>src/index.ts\<close>\<close>

text \<open>
  A source text is a \<open>string\<close>; a \<open>char\<close> stands for the UTF-16 code unit with the
  same number, so the embedding covers texts whose code units are below 256.  In that
  range the white space of \<open>String.prototype.trim\<close> and of the regular expression
  class \<open>\s\<close> is TAB, LF, VT, FF, CR, SPACE and NBSP.
\<close>

definition is_space :: "char \<Rightarrow> bool" where
  "is_space c \<longleftrightarrow>
     c = CHR 0x09 \<or> c = CHR 0x0A \<or> c = CHR 0x0B \<or> c = CHR 0x0C \<or> c = CHR 0x0D \<or>
     c = CHR 0x20 \<or> c = CHR 0xA0"

text \<open>The class \<open>\d\<close>.\<close>

definition is_digit :: "char \<Rightarrow> bool" where
  "is_digit c \<longleftrightarrow> CHR ''0'' \<le> c \<and> c \<le> CHR ''9''"

text \<open>The class \<open>[a-z]\<close>.\<close>

definition is_lower :: "char \<Rightarrow> bool" where
  "is_lower c \<longleftrightarrow> CHR ''a'' \<le> c \<and> c \<le> CHR ''z''"

text \<open>The class \<open>[a-zA-Z0-9]\<close>.\<close>

definition is_alnum :: "char \<Rightarrow> bool" where
  "is_alnum c \<longleftrightarrow> is_lower c \<or> (CHR ''A'' \<le> c \<and> c \<le> CHR ''Z'') \<or> is_digit c"

text \<open>The class \<open>[a-zA-Z0-9_]\<close>, which is also \<open>\w\<close>.\<close>

definition is_word :: "char \<Rightarrow> bool" where
  "is_word c \<longleftrightarrow> is_alnum c \<or> c = CHR ''_''"

text \<open>\<open>s.trim()\<close>\<close>

definition trim :: "string \<Rightarrow> string" where
  "trim s = rev (dropWhile is_space (rev (dropWhile is_space s)))"

text \<open>\<open>s.startsWith(p)\<close> and \<open>s.endsWith(p)\<close>\<close>

definition startsWith :: "string \<Rightarrow> string \<Rightarrow> bool" where
  "startsWith s p \<longleftrightarrow> take (length p) s = p"

definition endsWith :: "string \<Rightarrow> string \<Rightarrow> bool" where
  "endsWith s p \<longleftrightarrow> length p \<le> length s \<and> drop (length s - length p) s = p"

text \<open>
  \<open>code.split('\n')\<close>: the pieces between the line feeds, so the empty text has one
  (empty) line and a text with \<open>n\<close> line feeds has \<open>n + 1\<close> lines.  The recursive call
  never returns the empty list; the branch for it is there for completeness only.
\<close>

fun split_lines :: "string \<Rightarrow> string list" where
  "split_lines [] = [[]]"
| "split_lines (c # cs) =
     (if c = CHR 0x0A then [] # split_lines cs
      else (case split_lines cs of [] \<Rightarrow> [[c]] | l # ls \<Rightarrow> (c # l) # ls))"

text \<open>\<open>s.split('//')[0]\<close>: the text before the first occurrence of \<open>//\<close>.\<close>

fun before_slashes :: "string \<Rightarrow> string" where
  "before_slashes [] = []"
| "before_slashes (c # cs) =
     (if startsWith (c # cs) ''//'' then [] else c # before_slashes cs)"

text \<open>
  Decimal rendering of a number inside a template literal.  It is the rendering of
  JavaScript for integers of magnitude up to \<open>2 ^ 53\<close>, which covers every line count;
  beyond that JavaScript rounds to a double (and prints an exponent from \<open>1e21\<close> on),
  so the text of the message for such a threshold is outside the embedding.
\<close>

fun show_nat :: "nat \<Rightarrow> string" where
  "show_nat n =
     (if n < 10 then [char_of (48 + n)]
      else show_nat (n div 10) @ [char_of (48 + n mod 10)])"

declare show_nat.simps [simp del]

definition show_int :: "int \<Rightarrow> string" where
  "show_int i = (if i < 0 then CHR ''-'' # show_nat (nat (- i)) else show_nat (nat i))"

section \<open>The regular expressions\<close>

text \<open>
  \<open>re.test(s)\<close> without the sticky flag tries the pattern at every start position,
  from left to right.  A matcher is given the character before the position (for
  \<open>\b\<close>) and the text from the position on.
\<close>

fun test_anywhere :: "(char option \<Rightarrow> string \<Rightarrow> bool) \<Rightarrow> char option \<Rightarrow> string \<Rightarrow> bool" where
  "test_anywhere m prev [] = m prev []"
| "test_anywhere m prev (c # cs) = (m prev (c # cs) \<or> test_anywhere m (Some c) cs)"

text \<open>\<open>\b\<close> between two neighbouring positions; \<open>None\<close> is an end of the text.\<close>

definition word_at :: "char option \<Rightarrow> bool" where
  "word_at x = (case x of None \<Rightarrow> False | Some c \<Rightarrow> is_word c)"

definition word_boundary :: "char option \<Rightarrow> char option \<Rightarrow> bool" where
  "word_boundary a b \<longleftrightarrow> word_at a \<noteq> word_at b"

definition first_char :: "string \<Rightarrow> char option" where
  "first_char s = (case s of [] \<Rightarrow> None | c # _ \<Rightarrow> Some c)"

text \<open>
  \<open>/\bfor\s+each\b/\<close> at one position.  \<open>\s+\<close> has to take the whole run of white
  space, because \<open>e\<close> is not white space.
\<close>

definition for_each_at :: "char option \<Rightarrow> string \<Rightarrow> bool" where
  "for_each_at prev s \<longleftrightarrow>
     word_boundary prev (first_char s) \<and> startsWith s ''for'' \<and>
     (let r = drop 3 s; r' = dropWhile is_space r
      in r' \<noteq> r \<and> startsWith r' ''each'' \<and>
         word_boundary (Some CHR ''h'') (first_char (drop 4 r')))"

definition has_for_each :: "string \<Rightarrow> bool" where
  "has_for_each content = test_anywhere for_each_at None content"

text \<open>\<open>content.match(/[{}]/g)\<close>: the braces of the line, in order.\<close>

definition braces_of :: "string \<Rightarrow> string" where
  "braces_of content = filter (\<lambda>c. c = CHR ''{'' \<or> c = CHR ''}'') content"

text \<open>\<open>/\d{18,20}/\<close> at one position: eighteen digits are enough.\<close>

definition digits_at :: "char option \<Rightarrow> string \<Rightarrow> bool" where
  "digits_at prev s \<longleftrightarrow> 18 \<le> length s \<and> list_all is_digit (take 18 s)"

definition has_hardcoded_id :: "string \<Rightarrow> bool" where
  "has_hardcoded_id content = test_anywhere digits_at None content"

text \<open>\<open>/^(if|else|for|while)\b/\<close>; the character before \<open>\b\<close> is a letter.\<close>

definition starts_with_keyword :: "string \<Rightarrow> bool" where
  "starts_with_keyword codePart \<longleftrightarrow>
     list_ex (\<lambda>kw. startsWith codePart kw \<and> \<not> word_at (first_char (drop (length kw) codePart)))
       [''if'', ''else'', ''for'', ''while'']"

text \<open>
  \<open>content.match(/^\s*([a-zA-Z0-9_]+)\s*=/)\<close>, returning group 1.  Each repetition
  has to take its whole run: what must follow it is outside its class.
\<close>

definition assignment_match :: "string \<Rightarrow> string option" where
  "assignment_match content =
     (let r = dropWhile is_space content;
          variableName = takeWhile is_word r;
          r' = dropWhile is_space (dropWhile is_word r)
      in if variableName \<noteq> [] \<and> startsWith r' ''='' then Some variableName else None)"

text \<open>\<open>/^[a-z][a-zA-Z0-9]*$/\<close> on a name (which has no line terminator).\<close>

definition is_camel :: "string \<Rightarrow> bool" where
  "is_camel v = (case v of [] \<Rightarrow> False | c # cs \<Rightarrow> is_lower c \<and> list_all is_alnum cs)"

text \<open>
  \<open>/(zoho\.[a-zA-Z0-9_]+\.[a-zA-Z0-9_]+|invokeurl)\s*\(/\<close> at one position.  Again
  each repetition takes its whole run.
\<close>

definition zoho_call_at :: "string \<Rightarrow> bool" where
  "zoho_call_at s \<longleftrightarrow>
     startsWith s ''zoho.'' \<and>
     (let r1 = drop 5 s; r2 = dropWhile is_word r1
      in takeWhile is_word r1 \<noteq> [] \<and> startsWith r2 ''.'' \<and>
         (let r3 = drop 1 r2; r4 = dropWhile is_word r3
          in takeWhile is_word r3 \<noteq> [] \<and> startsWith (dropWhile is_space r4) ''(''))"

definition invokeurl_at :: "string \<Rightarrow> bool" where
  "invokeurl_at s \<longleftrightarrow>
     startsWith s ''invokeurl'' \<and> startsWith (dropWhile is_space (drop 9 s)) ''(''"

definition api_call_at :: "char option \<Rightarrow> string \<Rightarrow> bool" where
  "api_call_at prev s \<longleftrightarrow> zoho_call_at s \<or> invokeurl_at s"

definition has_api_call :: "string \<Rightarrow> bool" where
  "has_api_call content = test_anywhere api_call_at None content"

section \<open>Configuration and diagnostics\<close>

text \<open>
  A rule value is a string or a number (\<open>string | number | undefined\<close>); an absent
  key is \<open>None\<close>.  Numbers are the integers; fractions, \<open>NaN\<close> and the infinities
  are outside the embedding.  \<open>getConfig\<close> and the command line only read files and
  print, and are not modelled.
\<close>

datatype rule_value = Str string | Num int

record DelugeConfig =
  rules :: "string \<rightharpoonup> rule_value"
  exclude :: "string list option"
  env :: "(string option \<times> string option) option"

definition defaultConfig :: DelugeConfig where
  "defaultConfig =
     \<lparr> rules = [''no-hardcoded-ids'' \<mapsto> Str ''warn'',
                ''require-semicolon'' \<mapsto> Str ''error'',
                ''camelcase-vars'' \<mapsto> Str ''warn'',
                ''max-lines-per-function'' \<mapsto> Str ''off'',
                ''no-unused-maps'' \<mapsto> Str ''warn'',
                ''enforce-timeout-awareness'' \<mapsto> Str ''warn''],
       exclude = Some [''scripts/deprecated/**'', ''tests/**''],
       env = Some (Some ''crm'', Some ''2.0'') \<rparr>"

datatype severity = Warning | Error

record LintError =
  line :: nat
  message :: string
  type :: severity
  ruleId :: "string option"

text \<open>\<open>v || d\<close>: an absent key, the empty string and zero are falsy.\<close>

definition or_default :: "rule_value option \<Rightarrow> rule_value \<Rightarrow> rule_value" where
  "or_default v d =
     (case v of None \<Rightarrow> d
      | Some (Str s) \<Rightarrow> if s = [] then d else Str s
      | Some (Num n) \<Rightarrow> if n = 0 then d else Num n)"

text \<open>\<open>rule === 'error' ? 'error' : 'warning'\<close>\<close>

definition severity_of :: "rule_value \<Rightarrow> severity" where
  "severity_of r = (if r = Str ''error'' then Error else Warning)"

section \<open>The scan\<close>

record scope =
  braceStack :: "bool list"
  expectingLoopBrace :: bool

text \<open>One brace of a line; \<open>pop\<close> on the empty array does nothing.\<close>

definition brace_step :: "scope \<Rightarrow> char \<Rightarrow> scope" where
  "brace_step sc brace =
     (if brace = CHR ''{'' then
        \<lparr> braceStack = braceStack sc @ [expectingLoopBrace sc], expectingLoopBrace = False \<rparr>
      else if brace = CHR ''}'' then sc \<lparr> braceStack := butlast (braceStack sc) \<rparr>
      else sc)"

text \<open>The keyword test of a line that is not a comment.\<close>

definition scan_keyword :: "scope \<Rightarrow> string \<Rightarrow> scope" where
  "scan_keyword sc content =
     (if has_for_each content then sc \<lparr> expectingLoopBrace := True \<rparr> else sc)"

text \<open>The state update of a line that is not a comment.\<close>

definition update_scope :: "scope \<Rightarrow> string \<Rightarrow> scope" where
  "update_scope sc content = foldl brace_step (scan_keyword sc content) (braces_of content)"

definition is_comment_line :: "string \<Rightarrow> bool" where
  "is_comment_line content \<longleftrightarrow>
     (let trimmed = trim content in startsWith trimmed ''//'' \<or> startsWith trimmed ''/*'')"

definition isInsideLoop :: "scope \<Rightarrow> bool" where
  "isInsideLoop sc = list_ex (\<lambda>isLoop. isLoop) (braceStack sc)"

subsection \<open>The four rule checks of a line\<close>

text \<open>The objects pushed onto \<open>errors\<close>, one constructor for each rule.\<close>

definition hardcoded_id_error :: "nat \<Rightarrow> rule_value \<Rightarrow> LintError" where
  "hardcoded_id_error lineNumber hardcodedIdRule =
     \<lparr> line = lineNumber,
       message = ''Avoid using hardcoded IDs. Use configuration variables.'',
       type = severity_of hardcodedIdRule,
       ruleId = Some ''no-hardcoded-ids'' \<rparr>"

definition semicolon_error :: "nat \<Rightarrow> rule_value \<Rightarrow> LintError" where
  "semicolon_error lineNumber semicolonRule =
     \<lparr> line = lineNumber,
       message = ''Missing semicolon at the end of the line.'',
       type = severity_of semicolonRule,
       ruleId = Some ''require-semicolon'' \<rparr>"

definition camelcase_error :: "nat \<Rightarrow> string \<Rightarrow> rule_value \<Rightarrow> LintError" where
  "camelcase_error lineNumber variableName camelCaseRule =
     \<lparr> line = lineNumber,
       message = ''Variable '' @ [CHR 0x27] @ variableName @ [CHR 0x27] @
                 '' should be in camelCase.'',
       type = severity_of camelCaseRule,
       ruleId = Some ''camelcase-vars'' \<rparr>"

definition timeout_error :: "nat \<Rightarrow> rule_value \<Rightarrow> LintError" where
  "timeout_error lineNumber timeoutRule =
     \<lparr> line = lineNumber,
       message = ''Avoid using API calls (zoho.*, invokeurl) inside loops. This may cause '' @
                 [CHR 0x22] @ ''Time limit exceeded'' @ [CHR 0x22] @ '' errors.'',
       type = severity_of timeoutRule,
       ruleId = Some ''enforce-timeout-awareness'' \<rparr>"

definition max_lines_error :: "nat \<Rightarrow> int \<Rightarrow> LintError" where
  "max_lines_error n maxLinesRule =
     \<lparr> line = 1,
       message = ''Function length ('' @ show_nat n @
                 '') exceeds the maximum of '' @ show_int maxLinesRule @ '' lines.'',
       type = Warning,
       ruleId = Some ''max-lines-per-function'' \<rparr>"

definition check_hardcoded_ids :: "DelugeConfig \<Rightarrow> nat \<Rightarrow> string \<Rightarrow> LintError list" where
  "check_hardcoded_ids config lineNumber content =
     (let hardcodedIdRule = or_default (rules config ''no-hardcoded-ids'') (Str ''warn'')
      in if hardcodedIdRule \<noteq> Str ''off'' then
           (if has_hardcoded_id content then [hardcoded_id_error lineNumber hardcodedIdRule]
            else [])
         else [])"

text \<open>\<open>trimmed.split('//')[0].trim()\<close>\<close>

definition code_part :: "string \<Rightarrow> string" where
  "code_part content = trim (before_slashes (trim content))"

definition semicolon_missing :: "string \<Rightarrow> bool" where
  "semicolon_missing codePart \<longleftrightarrow>
     codePart \<noteq> [] \<and> length codePart > 0 \<and>
     \<not> endsWith codePart '';'' \<and> \<not> endsWith codePart ''{'' \<and>
     \<not> endsWith codePart ''}'' \<and> \<not> endsWith codePart '':'' \<and>
     \<not> starts_with_keyword codePart"

definition check_semicolon :: "DelugeConfig \<Rightarrow> nat \<Rightarrow> string \<Rightarrow> LintError list" where
  "check_semicolon config lineNumber content =
     (let semicolonRule = or_default (rules config ''require-semicolon'') (Str ''error'')
      in if semicolonRule \<noteq> Str ''off'' then
           (let codePart = code_part content
            in if semicolon_missing codePart then [semicolon_error lineNumber semicolonRule]
               else [])
         else [])"

definition check_camelcase :: "DelugeConfig \<Rightarrow> nat \<Rightarrow> string \<Rightarrow> LintError list" where
  "check_camelcase config lineNumber content =
     (let camelCaseRule = or_default (rules config ''camelcase-vars'') (Str ''warn'')
      in if camelCaseRule \<noteq> Str ''off'' then
           (case assignment_match content of
              None \<Rightarrow> []
            | Some variableName \<Rightarrow>
                if \<not> is_camel variableName then
                  [camelcase_error lineNumber variableName camelCaseRule]
                else [])
         else [])"

definition check_timeout :: "DelugeConfig \<Rightarrow> scope \<Rightarrow> nat \<Rightarrow> string \<Rightarrow> LintError list" where
  "check_timeout config sc lineNumber content =
     (let timeoutRule = or_default (rules config ''enforce-timeout-awareness'') (Str ''warn'')
      in if timeoutRule \<noteq> Str ''off'' then
           (if isInsideLoop sc then
              (if has_api_call content then [timeout_error lineNumber timeoutRule] else [])
            else [])
         else [])"

definition check_line :: "DelugeConfig \<Rightarrow> scope \<Rightarrow> nat \<Rightarrow> string \<Rightarrow> LintError list" where
  "check_line config sc lineNumber content =
     check_hardcoded_ids config lineNumber content @
     check_semicolon config lineNumber content @
     check_camelcase config lineNumber content @
     check_timeout config sc lineNumber content"

subsection \<open>The callback of \<open>lines.forEach\<close> and the entry point\<close>

text \<open>
  The callback reads and writes \<open>braceStack\<close>, \<open>expectingLoopBrace\<close> and \<open>errors\<close>;
  here it takes them and returns them.  A comment line returns at once.
\<close>

definition process_line ::
  "DelugeConfig \<Rightarrow> scope \<times> LintError list \<Rightarrow> nat \<times> string \<Rightarrow> scope \<times> LintError list" where
  "process_line config st x =
     (let sc = fst st; errors = snd st; index = fst x; content = snd x;
          lineNumber = index + 1
      in if is_comment_line content then (sc, errors)
         else (let sc' = update_scope sc content
               in (sc', errors @ check_line config sc' lineNumber content)))"

definition check_max_lines :: "DelugeConfig \<Rightarrow> string list \<Rightarrow> LintError list" where
  "check_max_lines config lines =
     (case rules config ''max-lines-per-function'' of
        Some (Num maxLinesRule) \<Rightarrow>
          if int (length lines) > maxLinesRule then [max_lines_error (length lines) maxLinesRule]
          else []
      | _ \<Rightarrow> [])"

definition initial_scope :: scope where
  "initial_scope = \<lparr> braceStack = [], expectingLoopBrace = False \<rparr>"

definition analyzeDeluge :: "string \<Rightarrow> DelugeConfig \<Rightarrow> LintError list" where
  "analyzeDeluge code config =
     (let lines = split_lines code;
          errors = check_max_lines config lines
      in snd (foldl (process_line config) (initial_scope, errors) (enumerate 0 lines)))"

section \<open>The scan as a function of the lines\<close>

text \<open>
  What one line does to the scope, and the diagnostics it appends, read off
  \<open>process_line\<close>; \<open>diags_from\<close> collects the diagnostics of a run of lines.
\<close>

definition scope_line :: "scope \<Rightarrow> string \<Rightarrow> scope" where
  "scope_line sc content = (if is_comment_line content then sc else update_scope sc content)"

definition line_diags :: "DelugeConfig \<Rightarrow> scope \<Rightarrow> nat \<times> string \<Rightarrow> LintError list" where
  "line_diags config sc x =
     (if is_comment_line (snd x) then []
      else check_line config (update_scope sc (snd x)) (fst x + 1) (snd x))"

fun diags_from :: "DelugeConfig \<Rightarrow> scope \<Rightarrow> (nat \<times> string) list \<Rightarrow> LintError list" where
  "diags_from config sc [] = []"
| "diags_from config sc (x # xs) =
     line_diags config sc x @ diags_from config (scope_line sc (snd x)) xs"

section \<open>The rule tables\<close>

text \<open>
  The order in which a line's checks run, and the default of each rule as the rule table
  of the documentation gives it (\<open>warn\<close>, \<open>error\<close>, \<open>warn\<close>, \<open>warn\<close>, and \<open>off\<close> for
  \<open>max-lines-per-function\<close>).
\<close>

definition per_line_rules :: "string option list" where
  "per_line_rules = [Some ''no-hardcoded-ids'', Some ''require-semicolon'',
                     Some ''camelcase-vars'', Some ''enforce-timeout-awareness'']"

definition documented_defaults :: "(string \<times> rule_value) list" where
  "documented_defaults =
     [(''no-hardcoded-ids'', Str ''warn''),
      (''require-semicolon'', Str ''error''),
      (''camelcase-vars'', Str ''warn''),
      (''enforce-timeout-awareness'', Str ''warn''),
      (''max-lines-per-function'', Str ''off'')]"

section \<open>Unmatched braces and the history of a scan\<close>

text \<open>
  The notions the statements about the scope stack are phrased in; they are not part of
  the program.  In a sequence of scanned characters, \<open>opens\<close> and \<open>closes\<close> count the
  two braces.  A \<open>{\<close> at position \<open>i\<close> is unmatched when no \<open>}\<close> after it closes it: in
  every prefix of what follows it the \<open>}\<close> do not outnumber the \<open>{\<close>.
\<close>

definition opens :: "string \<Rightarrow> nat" where
  "opens w = length (filter (\<lambda>c. c = CHR ''{'') w)"

definition closes :: "string \<Rightarrow> nat" where
  "closes w = length (filter (\<lambda>c. c = CHR ''}'') w)"

definition stays_open :: "string \<Rightarrow> bool" where
  "stays_open w \<longleftrightarrow> list_all (\<lambda>k. closes (take k w) \<le> opens (take k w)) [0..<Suc (length w)]"

definition is_unmatched :: "string \<Rightarrow> nat \<Rightarrow> bool" where
  "is_unmatched bs i \<longleftrightarrow> i < length bs \<and> bs ! i = CHR ''{'' \<and> stays_open (drop (Suc i) bs)"

definition unmatched :: "string \<Rightarrow> nat list" where
  "unmatched bs = filter (is_unmatched bs) [0..<length bs]"

text \<open>
  The history of a scan: every brace that was scanned, paired with the value of
  \<open>expectingLoopBrace\<close> at that moment, which for a \<open>{\<close> is the \<open>isLoop\<close> flag of the
  frame it pushes.
\<close>

fun trace_braces :: "scope \<Rightarrow> string \<Rightarrow> (char \<times> bool) list" where
  "trace_braces sc [] = []"
| "trace_braces sc (b # bs) = (b, expectingLoopBrace sc) # trace_braces (brace_step sc b) bs"

definition trace_line :: "scope \<Rightarrow> string \<Rightarrow> (char \<times> bool) list" where
  "trace_line sc content =
     (if is_comment_line content then []
      else trace_braces (scan_keyword sc content) (braces_of content))"

fun trace_lines :: "scope \<Rightarrow> string list \<Rightarrow> (char \<times> bool) list" where
  "trace_lines sc [] = []"
| "trace_lines sc (l # ls) = trace_line sc l @ trace_lines (scope_line sc l) ls"

text \<open>What one entry of the history does to the stack.\<close>

definition replay_step :: "bool list \<Rightarrow> char \<times> bool \<Rightarrow> bool list" where
  "replay_step st x =
     (if fst x = CHR ''{'' then st @ [snd x]
      else if fst x = CHR ''}'' then butlast st else st)"

text \<open>
  A point of the scan: the lines \<open>ls\<close> are done, the keyword test of the next line \<open>l\<close>
  (not a comment) is done, and \<open>k\<close> of its braces have been processed.
\<close>

definition scan_point :: "string list \<Rightarrow> string \<Rightarrow> nat \<Rightarrow> scope" where
  "scan_point ls l k =
     foldl brace_step (scan_keyword (foldl scope_line initial_scope ls) l) (take k (braces_of l))"

definition trace_point :: "string list \<Rightarrow> string \<Rightarrow> nat \<Rightarrow> (char \<times> bool) list" where
  "trace_point ls l k =
     trace_lines initial_scope ls @
     trace_braces (scan_keyword (foldl scope_line initial_scope ls) l) (take k (braces_of l))"

text \<open>
  Counting, for the statement that a keyword tags at most one frame: the \<open>{\<close> of a
  history that pushed a loop frame, and the lines on which the keyword test succeeds.
\<close>

definition loop_pushes :: "(char \<times> bool) list \<Rightarrow> nat" where
  "loop_pushes tr = length (filter (\<lambda>x. fst x = CHR ''{'' \<and> snd x) tr)"

definition keyword_lines :: "string list \<Rightarrow> nat" where
  "keyword_lines ls = length (filter (\<lambda>l. \<not> is_comment_line l \<and> has_for_each l) ls)"

section \<open>Example inputs\<close>

definition config_with :: "string \<Rightarrow> rule_value \<Rightarrow> DelugeConfig" where
  "config_with key v = defaultConfig \<lparr> rules := (rules defaultConfig)(key \<mapsto> v) \<rparr>"

definition empty_config :: DelugeConfig where
  "empty_config = \<lparr> rules = Map.empty, exclude = None, env = None \<rparr>"

definition three_lines :: string where
  "three_lines = ''a;'' @ [CHR 0x0A] @ ''b;'' @ [CHR 0x0A] @ ''c;''"

definition all_rules_order :: string where
  "all_rules_order = ''for each r in rs {'' @ [CHR 0x0A] @
                     ''My_Var = zoho.crm.get(409779000012345678)''"

definition loop_input :: string where
  "loop_input = ''for each r in records'' @ [CHR 0x0A] @ ''{'' @ [CHR 0x0A] @
                ''    zoho.crm.getRecords();'' @ [CHR 0x0A] @ ''}''"

definition call_line :: string where
  "call_line = ''    zoho.crm.getRecords();''"

definition unbalanced_input :: string where
  "unbalanced_input = ''}'' @ [CHR 0x0A] @ ''for each r in records {'' @ [CHR 0x0A] @
                      ''}'' @ [CHR 0x0A] @ ''}'' @ [CHR 0x0A] @ ''x = zoho.crm.getRecords();''"

definition else_loop_line :: string where
  "else_loop_line = ''} else { for each x in list {''"

definition commented_line :: string where
  "commented_line = ''   info x  // done  ''"

definition terminated_line :: string where
  "terminated_line = ''info x; // done''"

section \<open>Properties of the building blocks\<close>

lemma process_line_eq:
  "process_line config (sc, errs) x = (scope_line sc (snd x), errs @ line_diags config sc x)"
  by (simp add: process_line_def scope_line_def line_diags_def Let_def)

lemma foldl_process_line:
  "foldl (process_line config) (sc, errs) xs =
     (foldl scope_line sc (map snd xs), errs @ diags_from config sc xs)"
  by (induction xs arbitrary: sc errs) (simp_all add: process_line_eq)

lemma analyzeDeluge_eq:
  "analyzeDeluge code config =
     check_max_lines config (split_lines code) @
     diags_from config initial_scope (enumerate 0 (split_lines code))"
  by (simp add: analyzeDeluge_def Let_def foldl_process_line)

lemma in_set_if_single: "d \<in> set (if c then [x] else []) \<longleftrightarrow> c \<and> d = x"
  by (cases c) simp_all

lemma error_sel [simp]:
  "line (hardcoded_id_error n r) = n"
  "type (hardcoded_id_error n r) = severity_of r"
  "ruleId (hardcoded_id_error n r) = Some ''no-hardcoded-ids''"
  "line (semicolon_error n r) = n"
  "type (semicolon_error n r) = severity_of r"
  "ruleId (semicolon_error n r) = Some ''require-semicolon''"
  "line (camelcase_error n v r) = n"
  "type (camelcase_error n v r) = severity_of r"
  "ruleId (camelcase_error n v r) = Some ''camelcase-vars''"
  "line (timeout_error n r) = n"
  "type (timeout_error n r) = severity_of r"
  "ruleId (timeout_error n r) = Some ''enforce-timeout-awareness''"
  "line (max_lines_error k m) = 1"
  "type (max_lines_error k m) = Warning"
  "ruleId (max_lines_error k m) = Some ''max-lines-per-function''"
  by (simp_all add: hardcoded_id_error_def semicolon_error_def camelcase_error_def
        timeout_error_def max_lines_error_def)

text \<open>Each check yields nothing or one diagnostic.\<close>

lemma check_hardcoded_ids_eq:
  "check_hardcoded_ids config n l =
     (if or_default (rules config ''no-hardcoded-ids'') (Str ''warn'') \<noteq> Str ''off'' \<and>
         has_hardcoded_id l
      then [hardcoded_id_error n (or_default (rules config ''no-hardcoded-ids'') (Str ''warn''))]
      else [])"
  by (simp add: check_hardcoded_ids_def Let_def)

lemma check_semicolon_eq:
  "check_semicolon config n l =
     (if or_default (rules config ''require-semicolon'') (Str ''error'') \<noteq> Str ''off'' \<and>
         semicolon_missing (code_part l)
      then [semicolon_error n (or_default (rules config ''require-semicolon'') (Str ''error''))]
      else [])"
  by (simp add: check_semicolon_def Let_def)

lemma check_camelcase_None:
  "assignment_match l = None \<Longrightarrow> check_camelcase config n l = []"
  by (simp add: check_camelcase_def Let_def)

lemma check_camelcase_Some:
  "assignment_match l = Some v \<Longrightarrow>
     check_camelcase config n l =
       (if or_default (rules config ''camelcase-vars'') (Str ''warn'') \<noteq> Str ''off'' \<and>
           \<not> is_camel v
        then [camelcase_error n v (or_default (rules config ''camelcase-vars'') (Str ''warn''))]
        else [])"
  by (simp add: check_camelcase_def Let_def)

lemma check_timeout_eq:
  "check_timeout config sc n l =
     (if or_default (rules config ''enforce-timeout-awareness'') (Str ''warn'') \<noteq> Str ''off'' \<and>
         isInsideLoop sc \<and> has_api_call l
      then [timeout_error n
              (or_default (rules config ''enforce-timeout-awareness'') (Str ''warn''))]
      else [])"
  by (simp add: check_timeout_def Let_def)

lemma check_max_lines_eq:
  "check_max_lines config ls =
     (case rules config ''max-lines-per-function'' of
        None \<Rightarrow> []
      | Some (Str s) \<Rightarrow> []
      | Some (Num n) \<Rightarrow> if n < int (length ls) then [max_lines_error (length ls) n] else [])"
  by (simp add: check_max_lines_def split: option.split rule_value.split)

lemma check_hardcoded_ids_mem:
  "d \<in> set (check_hardcoded_ids config n l) \<Longrightarrow>
     line d = n \<and> ruleId d = Some ''no-hardcoded-ids''"
  by (simp add: check_hardcoded_ids_eq in_set_if_single)

lemma check_semicolon_mem:
  "d \<in> set (check_semicolon config n l) \<Longrightarrow>
     line d = n \<and> ruleId d = Some ''require-semicolon''"
  by (simp add: check_semicolon_eq in_set_if_single)

lemma check_camelcase_mem:
  "d \<in> set (check_camelcase config n l) \<Longrightarrow>
     line d = n \<and> ruleId d = Some ''camelcase-vars''"
  by (cases "assignment_match l")
     (simp_all add: check_camelcase_None check_camelcase_Some in_set_if_single)

lemma check_timeout_mem:
  "d \<in> set (check_timeout config sc n l) \<Longrightarrow>
     line d = n \<and> ruleId d = Some ''enforce-timeout-awareness''"
  by (simp add: check_timeout_eq in_set_if_single)

lemma check_line_ruleId:
  "d \<in> set (check_line config sc n l) \<Longrightarrow>
     line d = n \<and>
     ruleId d \<in> {Some ''no-hardcoded-ids'', Some ''require-semicolon'',
                  Some ''camelcase-vars'', Some ''enforce-timeout-awareness''}"
  unfolding check_line_def
  using check_hardcoded_ids_mem check_semicolon_mem check_camelcase_mem check_timeout_mem
  by fastforce

lemma line_diags_ruleId:
  "d \<in> set (line_diags config sc x) \<Longrightarrow>
     line d = Suc (fst x) \<and>
     ruleId d \<in> {Some ''no-hardcoded-ids'', Some ''require-semicolon'',
                  Some ''camelcase-vars'', Some ''enforce-timeout-awareness''}"
  using check_line_ruleId [of d config "update_scope sc (snd x)" "fst x + 1" "snd x"]
  by (simp add: line_diags_def split: if_splits)

lemma diags_from_ruleId:
  "d \<in> set (diags_from config sc xs) \<Longrightarrow>
     line d \<in> Suc ` fst ` set xs \<and>
     ruleId d \<in> {Some ''no-hardcoded-ids'', Some ''require-semicolon'',
                  Some ''camelcase-vars'', Some ''enforce-timeout-awareness''}"
proof (induction xs arbitrary: sc)
  case Nil
  then show ?case by simp
next
  case (Cons x xs)
  from Cons.prems consider "d \<in> set (line_diags config sc x)"
    | "d \<in> set (diags_from config (scope_line sc (snd x)) xs)" by auto
  then show ?case
  proof cases
    case 1
    from line_diags_ruleId [OF 1] show ?thesis by simp
  next
    case 2
    from Cons.IH [OF 2] show ?thesis by auto
  qed
qed

lemma diags_from_not_max_lines:
  "filter (\<lambda>d. ruleId d = Some ''max-lines-per-function'') (diags_from config sc xs) = []"
proof -
  have "\<And>d. d \<in> set (diags_from config sc xs) \<Longrightarrow> ruleId d \<noteq> Some ''max-lines-per-function''"
    using diags_from_ruleId by fastforce
  then show ?thesis by (simp add: filter_empty_conv)
qed

lemma check_max_lines_mem:
  "d \<in> set (check_max_lines config ls) \<Longrightarrow>
     line d = 1 \<and> type d = Warning \<and> ruleId d = Some ''max-lines-per-function''"
proof (cases "rules config ''max-lines-per-function''")
  case None
  then show "d \<in> set (check_max_lines config ls) \<Longrightarrow> ?thesis"
    by (simp add: check_max_lines_eq)
next
  case (Some v)
  then show "d \<in> set (check_max_lines config ls) \<Longrightarrow> ?thesis"
    by (cases v) (simp_all add: check_max_lines_eq in_set_if_single)
qed

lemma check_max_lines_ruleId_filter:
  "filter (\<lambda>d. ruleId d = Some ''max-lines-per-function'') (check_max_lines config ls) =
     check_max_lines config ls"
  using check_max_lines_mem [of _ config ls] by (simp add: filter_id_conv)

lemma filter_max_lines:
  "filter (\<lambda>d. ruleId d = Some ''max-lines-per-function'') (analyzeDeluge code config) =
     check_max_lines config (split_lines code)"
  by (simp add: analyzeDeluge_eq check_max_lines_ruleId_filter diags_from_not_max_lines)

lemma check_line_cong:
  assumes "rules c1 ''no-hardcoded-ids'' = rules c2 ''no-hardcoded-ids''"
    and "rules c1 ''require-semicolon'' = rules c2 ''require-semicolon''"
    and "rules c1 ''camelcase-vars'' = rules c2 ''camelcase-vars''"
    and "rules c1 ''enforce-timeout-awareness'' = rules c2 ''enforce-timeout-awareness''"
  shows "check_line c1 sc n l = check_line c2 sc n l"
  using assms
  by (simp add: check_line_def check_hardcoded_ids_def check_semicolon_def
        check_camelcase_def check_timeout_def)

lemma diags_from_cong:
  assumes "rules c1 ''no-hardcoded-ids'' = rules c2 ''no-hardcoded-ids''"
    and "rules c1 ''require-semicolon'' = rules c2 ''require-semicolon''"
    and "rules c1 ''camelcase-vars'' = rules c2 ''camelcase-vars''"
    and "rules c1 ''enforce-timeout-awareness'' = rules c2 ''enforce-timeout-awareness''"
  shows "diags_from c1 sc xs = diags_from c2 sc xs"
  by (induction xs arbitrary: sc) (simp_all add: line_diags_def check_line_cong [OF assms])

lemma split_lines_nonempty: "split_lines s \<noteq> []"
  by (induction s) (simp_all split: list.split)

lemma split_lines_snoc_newline: "split_lines (t @ [CHR 0x0A]) = split_lines t @ [[]]"
  by (induction t) (simp_all split: list.split add: split_lines_nonempty)

lemma length_split_lines: "length (split_lines s) = Suc (count_list s (CHR 0x0A))"
  by (induction s) (auto split: list.split simp: split_lines_nonempty)

lemma split_lines_no_newline: "l \<in> set (split_lines s) \<Longrightarrow> CHR 0x0A \<notin> set l"
proof (induction s arbitrary: l)
  case Nil
  then show ?case by simp
next
  case (Cons c cs)
  show ?case
  proof (cases "split_lines cs")
    case Nil
    then show ?thesis using split_lines_nonempty by blast
  next
    case (Cons l' ls')
    with Cons.IH have "CHR 0x0A \<notin> set l'" "\<And>x. x \<in> set ls' \<Longrightarrow> CHR 0x0A \<notin> set x"
      by simp_all
    with Cons.prems Cons show ?thesis
      by (cases "c = CHR 0x0A") auto
  qed
qed

lemma filter_line_diags:
  "filter (\<lambda>d. line d = Suc k) (line_diags config sc (n, l)) =
     (if k = n then line_diags config sc (n, l) else [])"
proof -
  have "\<And>d. d \<in> set (line_diags config sc (n, l)) \<Longrightarrow> line d = Suc n"
    using line_diags_ruleId [of _ config sc "(n, l)"] by simp
  then show ?thesis
    by (cases "k = n") (simp_all add: filter_id_conv filter_empty_conv)
qed

lemma diags_from_filter_line:
  "filter (\<lambda>d. line d = Suc k) (diags_from config sc (enumerate n ls)) =
     (if n \<le> k \<and> k < n + length ls
      then line_diags config (foldl scope_line sc (take (k - n) ls)) (k, ls ! (k - n))
      else [])"
proof (induction ls arbitrary: n sc)
  case Nil
  then show ?case by auto
next
  case (Cons l ls)
  note IH = Cons.IH [of "scope_line sc l" "Suc n"]
  consider "k = n" | "k < n" | "n < k" by linarith
  then show ?case
  proof cases
    case 1
    with IH show ?thesis by (simp add: filter_line_diags)
  next
    case 2
    with IH show ?thesis by (simp add: filter_line_diags)
  next
    case 3
    then obtain j where j: "k - n = Suc j" "k - Suc n = j"
      by (metis Suc_diff_Suc)
    with 3 IH show ?thesis
      by (simp add: filter_line_diags)
  qed
qed

lemma diags_from_lines_ge:
  "d \<in> set (diags_from config sc (enumerate n ls)) \<Longrightarrow> Suc n \<le> line d"
  using diags_from_ruleId [of d config sc "enumerate n ls"]
  by (auto simp: enumerate_eq_zip in_set_zip)

lemma line_diags_line:
  "d \<in> set (line_diags config sc (n, l)) \<Longrightarrow> line d = Suc n"
  using line_diags_ruleId [of d config sc "(n, l)"] by simp

lemma sorted_diags_from:
  "sorted (map line (diags_from config sc (enumerate n ls)))"
proof (induction ls arbitrary: n sc)
  case Nil
  then show ?case by simp
next
  case (Cons l ls)
  have "sorted (map line (line_diags config sc (n, l)))"
    using line_diags_line [of _ config sc n l]
    by (simp add: sorted_wrt_iff_nth_less sorted_map)
  moreover have "\<And>x y. x \<in> set (line_diags config sc (n, l)) \<Longrightarrow>
      y \<in> set (diags_from config (scope_line sc l) (enumerate (Suc n) ls)) \<Longrightarrow> line x \<le> line y"
    using line_diags_line [of _ config sc n l]
      diags_from_lines_ge [of _ config "scope_line sc l" "Suc n" ls]
    by fastforce
  ultimately show ?case
    by (simp add: sorted_append Cons.IH)
qed

lemma sorted_analyzeDeluge: "sorted (map line (analyzeDeluge code config))"
proof -
  have "\<And>x y. x \<in> set (check_max_lines config (split_lines code)) \<Longrightarrow>
      y \<in> set (diags_from config initial_scope (enumerate 0 (split_lines code))) \<Longrightarrow>
      line x \<le> line y"
    using check_max_lines_mem [of _ config "split_lines code"]
      diags_from_lines_ge [of _ config initial_scope 0 "split_lines code"]
    by fastforce
  moreover have "sorted (map line (check_max_lines config (split_lines code)))"
    using check_max_lines_mem [of _ config "split_lines code"]
    by (simp add: sorted_wrt_iff_nth_less sorted_map)
  ultimately show ?thesis
    by (simp add: analyzeDeluge_eq sorted_append sorted_diags_from)
qed

lemma subseq_if_single: "subseq (map f (if c then [x] else [])) [f x]"
  by (cases c) simp_all

lemma check_hardcoded_ids_subseq:
  "subseq (map ruleId (check_hardcoded_ids config n l)) [Some ''no-hardcoded-ids'']"
  by (cases "or_default (rules config ''no-hardcoded-ids'') (Str ''warn'') \<noteq> Str ''off'' \<and>
         has_hardcoded_id l") (simp_all add: check_hardcoded_ids_eq)

lemma check_semicolon_subseq:
  "subseq (map ruleId (check_semicolon config n l)) [Some ''require-semicolon'']"
  by (cases "or_default (rules config ''require-semicolon'') (Str ''error'') \<noteq> Str ''off'' \<and>
         semicolon_missing (code_part l)") (simp_all add: check_semicolon_eq)

lemma check_camelcase_subseq:
  "subseq (map ruleId (check_camelcase config n l)) [Some ''camelcase-vars'']"
proof (cases "assignment_match l")
  case None
  then show ?thesis by (simp add: check_camelcase_None)
next
  case (Some v)
  then show ?thesis
    by (cases "or_default (rules config ''camelcase-vars'') (Str ''warn'') \<noteq> Str ''off'' \<and>
          \<not> is_camel v") (simp_all add: check_camelcase_Some)
qed

lemma check_timeout_subseq:
  "subseq (map ruleId (check_timeout config sc n l)) [Some ''enforce-timeout-awareness'']"
  by (cases "or_default (rules config ''enforce-timeout-awareness'') (Str ''warn'') \<noteq> Str ''off'' \<and>
         isInsideLoop sc \<and> has_api_call l") (simp_all add: check_timeout_eq)

lemma check_line_subseq: "subseq (map ruleId (check_line config sc n l)) per_line_rules"
proof -
  have "subseq (map ruleId (check_hardcoded_ids config n l) @
                (map ruleId (check_semicolon config n l) @
                 (map ruleId (check_camelcase config n l) @
                  map ruleId (check_timeout config sc n l))))
          ([Some ''no-hardcoded-ids''] @ ([Some ''require-semicolon''] @
            ([Some ''camelcase-vars''] @ [Some ''enforce-timeout-awareness''])))"
    by (intro list_emb_append_mono check_hardcoded_ids_subseq check_semicolon_subseq
          check_camelcase_subseq check_timeout_subseq)
  then show ?thesis by (simp add: check_line_def per_line_rules_def)
qed

lemma line_diags_subseq: "subseq (map ruleId (line_diags config sc x)) per_line_rules"
  by (simp add: line_diags_def check_line_subseq)

lemma filter_line_not_max:
  "filter (\<lambda>d. line d = n \<and> ruleId d \<noteq> Some ''max-lines-per-function'')
     (analyzeDeluge code config) =
   filter (\<lambda>d. line d = n) (diags_from config initial_scope (enumerate 0 (split_lines code)))"
proof -
  have 1: "filter (\<lambda>d. line d = n \<and> ruleId d \<noteq> Some ''max-lines-per-function'')
      (check_max_lines config (split_lines code)) = []"
    using check_max_lines_mem [of _ config "split_lines code"]
    by (auto simp: filter_empty_conv)
  have 2: "filter (\<lambda>d. line d = n \<and> ruleId d \<noteq> Some ''max-lines-per-function'')
      (diags_from config initial_scope (enumerate 0 (split_lines code))) =
    filter (\<lambda>d. line d = n) (diags_from config initial_scope (enumerate 0 (split_lines code)))"
    using diags_from_ruleId [of _ config initial_scope "enumerate 0 (split_lines code)"]
    by (intro filter_cong refl) fastforce
  show ?thesis by (simp add: analyzeDeluge_eq 1 2)
qed

lemma check_line_or_default_cong:
  assumes "or_default (rules c1 ''no-hardcoded-ids'') (Str ''warn'') =
           or_default (rules c2 ''no-hardcoded-ids'') (Str ''warn'')"
    and "or_default (rules c1 ''require-semicolon'') (Str ''error'') =
         or_default (rules c2 ''require-semicolon'') (Str ''error'')"
    and "or_default (rules c1 ''camelcase-vars'') (Str ''warn'') =
         or_default (rules c2 ''camelcase-vars'') (Str ''warn'')"
    and "or_default (rules c1 ''enforce-timeout-awareness'') (Str ''warn'') =
         or_default (rules c2 ''enforce-timeout-awareness'') (Str ''warn'')"
  shows "check_line c1 sc n l = check_line c2 sc n l"
  using assms
  by (simp add: check_line_def check_hardcoded_ids_def check_semicolon_def
        check_camelcase_def check_timeout_def)

lemma diags_from_or_default_cong:
  assumes "or_default (rules c1 ''no-hardcoded-ids'') (Str ''warn'') =
           or_default (rules c2 ''no-hardcoded-ids'') (Str ''warn'')"
    and "or_default (rules c1 ''require-semicolon'') (Str ''error'') =
         or_default (rules c2 ''require-semicolon'') (Str ''error'')"
    and "or_default (rules c1 ''camelcase-vars'') (Str ''warn'') =
         or_default (rules c2 ''camelcase-vars'') (Str ''warn'')"
    and "or_default (rules c1 ''enforce-timeout-awareness'') (Str ''warn'') =
         or_default (rules c2 ''enforce-timeout-awareness'') (Str ''warn'')"
  shows "diags_from c1 sc xs = diags_from c2 sc xs"
  by (induction xs arbitrary: sc)
     (simp_all add: line_diags_def check_line_or_default_cong [OF assms])

lemma analyzeDeluge_cong:
  assumes "or_default (rules c1 ''no-hardcoded-ids'') (Str ''warn'') =
           or_default (rules c2 ''no-hardcoded-ids'') (Str ''warn'')"
    and "or_default (rules c1 ''require-semicolon'') (Str ''error'') =
         or_default (rules c2 ''require-semicolon'') (Str ''error'')"
    and "or_default (rules c1 ''camelcase-vars'') (Str ''warn'') =
         or_default (rules c2 ''camelcase-vars'') (Str ''warn'')"
    and "or_default (rules c1 ''enforce-timeout-awareness'') (Str ''warn'') =
         or_default (rules c2 ''enforce-timeout-awareness'') (Str ''warn'')"
    and "check_max_lines c1 (split_lines code) = check_max_lines c2 (split_lines code)"
  shows "analyzeDeluge code c1 = analyzeDeluge code c2"
  using diags_from_or_default_cong [OF assms(1-4)] assms(5)
  by (simp add: analyzeDeluge_eq)

lemma absent_key_is_default:
  assumes "(r, v) \<in> set documented_defaults" and "rules config r = None"
  shows "analyzeDeluge code config =
         analyzeDeluge code (config \<lparr> rules := (rules config)(r \<mapsto> v) \<rparr>)"
proof (rule analyzeDeluge_cong)
  show "check_max_lines config (split_lines code) =
        check_max_lines (config \<lparr> rules := (rules config)(r \<mapsto> v) \<rparr>) (split_lines code)"
    using assms by (auto simp: documented_defaults_def check_max_lines_eq)
qed (use assms in \<open>auto simp: documented_defaults_def or_default_def\<close>)

lemma off_rule_silent:
  assumes "rules config r = Some (Str ''off'')" and "d \<in> set (analyzeDeluge code config)"
  shows "ruleId d \<noteq> Some r"
proof
  assume r: "ruleId d = Some r"
  from assms(2) consider
      (m) "d \<in> set (check_max_lines config (split_lines code))"
    | (l) "d \<in> set (diags_from config initial_scope (enumerate 0 (split_lines code)))"
    by (auto simp: analyzeDeluge_eq)
  then show False
  proof cases
    case m
    from check_max_lines_mem [OF m] r have "r = ''max-lines-per-function''" by simp
    with assms(1) m show False by (simp add: check_max_lines_eq)
  next
    case l
    have off: "or_default (Some (Str ''off'')) x = Str ''off''" for x
      by (simp add: or_default_def)
    have "ruleId d \<noteq> Some r" if "d \<in> set (diags_from config sc xs)" for sc xs
      using that
    proof (induction xs arbitrary: sc)
      case Nil
      then show ?case by simp
    next
      case (Cons x xs)
      from Cons.prems consider "d \<in> set (line_diags config sc x)"
        | "d \<in> set (diags_from config (scope_line sc (snd x)) xs)" by auto
      then show ?case
      proof cases
        case 1
        then have c: "\<not> is_comment_line (snd x)"
          and "d \<in> set (check_line config (update_scope sc (snd x)) (fst x + 1) (snd x))"
          by (simp_all add: line_diags_def split: if_splits)
        then consider
            "d \<in> set (check_hardcoded_ids config (fst x + 1) (snd x))"
          | "d \<in> set (check_semicolon config (fst x + 1) (snd x))"
          | "d \<in> set (check_camelcase config (fst x + 1) (snd x))"
          | "d \<in> set (check_timeout config (update_scope sc (snd x)) (fst x + 1) (snd x))"
          by (auto simp: check_line_def)
        then show ?thesis
        proof cases
          case 1
          with assms(1) check_hardcoded_ids_mem [OF 1] show ?thesis
            by (auto simp: check_hardcoded_ids_eq off)
        next
          case 2
          with assms(1) check_semicolon_mem [OF 2] show ?thesis
            by (auto simp: check_semicolon_eq off)
        next
          case 3
          with assms(1) check_camelcase_mem [OF 3] show ?thesis
            by (cases "assignment_match (snd x)")
               (auto simp: check_camelcase_None check_camelcase_Some off)
        next
          case 4
          with assms(1) check_timeout_mem [OF 4] show ?thesis
            by (auto simp: check_timeout_eq off)
        qed
      next
        case 2
        then show ?thesis by (rule Cons.IH)
      qed
    qed
    from this [OF l] r show False by simp
  qed
qed

lemma check_line_setting:
  assumes "d \<in> set (check_line config sc n l)"
  shows "(ruleId d = Some ''no-hardcoded-ids'' \<longrightarrow>
            or_default (rules config ''no-hardcoded-ids'') (Str ''warn'') \<noteq> Str ''off'' \<and>
            type d = severity_of (or_default (rules config ''no-hardcoded-ids'') (Str ''warn''))) \<and>
         (ruleId d = Some ''require-semicolon'' \<longrightarrow>
            or_default (rules config ''require-semicolon'') (Str ''error'') \<noteq> Str ''off'' \<and>
            type d = severity_of (or_default (rules config ''require-semicolon'') (Str ''error''))) \<and>
         (ruleId d = Some ''camelcase-vars'' \<longrightarrow>
            or_default (rules config ''camelcase-vars'') (Str ''warn'') \<noteq> Str ''off'' \<and>
            type d = severity_of (or_default (rules config ''camelcase-vars'') (Str ''warn''))) \<and>
         (ruleId d = Some ''enforce-timeout-awareness'' \<longrightarrow>
            or_default (rules config ''enforce-timeout-awareness'') (Str ''warn'') \<noteq> Str ''off'' \<and>
            type d = severity_of
              (or_default (rules config ''enforce-timeout-awareness'') (Str ''warn'')))"
proof -
  from assms consider
      "d \<in> set (check_hardcoded_ids config n l)"
    | "d \<in> set (check_semicolon config n l)"
    | "d \<in> set (check_camelcase config n l)"
    | "d \<in> set (check_timeout config sc n l)"
    by (auto simp: check_line_def)
  then show ?thesis
  proof cases
    case 1
    then show ?thesis by (simp add: check_hardcoded_ids_eq in_set_if_single)
  next
    case 2
    then show ?thesis by (simp add: check_semicolon_eq in_set_if_single)
  next
    case 3
    then show ?thesis
      by (cases "assignment_match l")
         (simp_all add: check_camelcase_None check_camelcase_Some in_set_if_single)
  next
    case 4
    then show ?thesis by (simp add: check_timeout_eq in_set_if_single)
  qed
qed

lemma diags_from_check_line:
  "d \<in> set (diags_from config sc xs) \<Longrightarrow> \<exists>sc' n l. d \<in> set (check_line config sc' n l)"
proof (induction xs arbitrary: sc)
  case Nil
  then show ?case by simp
next
  case (Cons x xs)
  from Cons.prems consider "d \<in> set (line_diags config sc x)"
    | "d \<in> set (diags_from config (scope_line sc (snd x)) xs)" by auto
  then show ?case
  proof cases
    case 1
    then have "d \<in> set (check_line config (update_scope sc (snd x)) (fst x + 1) (snd x))"
      by (cases "is_comment_line (snd x)") (simp_all add: line_diags_def)
    then show ?thesis by blast
  next
    case 2
    then show ?thesis by (rule Cons.IH)
  qed
qed

lemma analyzeDeluge_setting:
  assumes "d \<in> set (analyzeDeluge code config)"
  shows "(ruleId d = Some ''no-hardcoded-ids'' \<longrightarrow>
            or_default (rules config ''no-hardcoded-ids'') (Str ''warn'') \<noteq> Str ''off'' \<and>
            type d = severity_of (or_default (rules config ''no-hardcoded-ids'') (Str ''warn''))) \<and>
         (ruleId d = Some ''require-semicolon'' \<longrightarrow>
            or_default (rules config ''require-semicolon'') (Str ''error'') \<noteq> Str ''off'' \<and>
            type d = severity_of (or_default (rules config ''require-semicolon'') (Str ''error''))) \<and>
         (ruleId d = Some ''camelcase-vars'' \<longrightarrow>
            or_default (rules config ''camelcase-vars'') (Str ''warn'') \<noteq> Str ''off'' \<and>
            type d = severity_of (or_default (rules config ''camelcase-vars'') (Str ''warn''))) \<and>
         (ruleId d = Some ''enforce-timeout-awareness'' \<longrightarrow>
            or_default (rules config ''enforce-timeout-awareness'') (Str ''warn'') \<noteq> Str ''off'' \<and>
            type d = severity_of
              (or_default (rules config ''enforce-timeout-awareness'') (Str ''warn''))) \<and>
         (ruleId d = Some ''max-lines-per-function'' \<longrightarrow>
            (\<exists>n. rules config ''max-lines-per-function'' = Some (Num n)))"
proof -
  from assms consider
      (m) "d \<in> set (check_max_lines config (split_lines code))"
    | (l) "d \<in> set (diags_from config initial_scope (enumerate 0 (split_lines code)))"
    by (auto simp: analyzeDeluge_eq)
  then show ?thesis
  proof cases
    case m
    have "\<exists>n. rules config ''max-lines-per-function'' = Some (Num n)"
    proof (cases "rules config ''max-lines-per-function''")
      case None
      with m show ?thesis by (simp add: check_max_lines_eq)
    next
      case (Some v)
      with m show ?thesis by (cases v) (simp_all add: check_max_lines_eq)
    qed
    with check_max_lines_mem [OF m] show ?thesis by simp
  next
    case l
    from diags_from_check_line [OF l] obtain sc' n c where
      c: "d \<in> set (check_line config sc' n c)" by blast
    from check_line_ruleId [OF c] have "ruleId d \<noteq> Some ''max-lines-per-function''"
      by auto
    with check_line_setting [OF c] show ?thesis by simp
  qed
qed

lemma absent_key_severity:
  assumes rv: "(r, v) \<in> set documented_defaults" and n: "rules config r = None"
    and d: "d \<in> set (analyzeDeluge code config)" and r: "ruleId d = Some r"
  shows "v \<noteq> Str ''off'' \<and> type d = severity_of v"
proof -
  note s = analyzeDeluge_setting [OF d]
  from rv have "(r = ''no-hardcoded-ids'' \<and> v = Str ''warn'') \<or>
      (r = ''require-semicolon'' \<and> v = Str ''error'') \<or>
      (r = ''camelcase-vars'' \<and> v = Str ''warn'') \<or>
      (r = ''enforce-timeout-awareness'' \<and> v = Str ''warn'') \<or>
      (r = ''max-lines-per-function'' \<and> v = Str ''off'')"
    unfolding documented_defaults_def by simp
  then show ?thesis
  proof (elim disjE conjE)
    assume *: "r = ''no-hardcoded-ids''" "v = Str ''warn''"
    from s r n show ?thesis unfolding * by (simp add: or_default_def)
  next
    assume *: "r = ''require-semicolon''" "v = Str ''error''"
    from s r n show ?thesis unfolding * by (simp add: or_default_def)
  next
    assume *: "r = ''camelcase-vars''" "v = Str ''warn''"
    from s r n show ?thesis unfolding * by (simp add: or_default_def)
  next
    assume *: "r = ''enforce-timeout-awareness''" "v = Str ''warn''"
    from s r n show ?thesis unfolding * by (simp add: or_default_def)
  next
    assume *: "r = ''max-lines-per-function''" "v = Str ''off''"
    from s r n show ?thesis unfolding * by simp
  qed
qed

lemma filter_rule_check_line:
  "filter (\<lambda>d. ruleId d = Some ''no-hardcoded-ids'') (check_line config sc n l) =
     check_hardcoded_ids config n l"
  "filter (\<lambda>d. ruleId d = Some ''require-semicolon'') (check_line config sc n l) =
     check_semicolon config n l"
  "filter (\<lambda>d. ruleId d = Some ''camelcase-vars'') (check_line config sc n l) =
     check_camelcase config n l"
  "filter (\<lambda>d. ruleId d = Some ''enforce-timeout-awareness'') (check_line config sc n l) =
     check_timeout config sc n l"
  using check_hardcoded_ids_mem [of _ config n l] check_semicolon_mem [of _ config n l]
    check_camelcase_mem [of _ config n l] check_timeout_mem [of _ config sc n l]
  by (simp_all add: check_line_def filter_id_conv filter_empty_conv)

lemma analyzeDeluge_line:
  assumes "k < length (split_lines code)"
  shows "filter (\<lambda>d. line d = Suc k \<and> ruleId d \<noteq> Some ''max-lines-per-function'')
           (analyzeDeluge code config) =
         line_diags config (foldl scope_line initial_scope (take k (split_lines code)))
           (k, split_lines code ! k)"
  using assms by (simp add: filter_line_not_max diags_from_filter_line)

lemma analyzeDeluge_line_rule:
  assumes "k < length (split_lines code)" and "r \<noteq> ''max-lines-per-function''"
  shows "filter (\<lambda>d. line d = Suc k \<and> ruleId d = Some r) (analyzeDeluge code config) =
         filter (\<lambda>d. ruleId d = Some r)
           (line_diags config (foldl scope_line initial_scope (take k (split_lines code)))
              (k, split_lines code ! k))"
proof -
  have "filter (\<lambda>d. line d = Suc k \<and> ruleId d = Some r) (analyzeDeluge code config) =
      filter (\<lambda>d. ruleId d = Some r)
        (filter (\<lambda>d. line d = Suc k \<and> ruleId d \<noteq> Some ''max-lines-per-function'')
           (analyzeDeluge code config))"
    using assms(2) by (auto intro: filter_cong)
  with analyzeDeluge_line [OF assms(1)] show ?thesis by simp
qed

lemma loop_input_lines:
  "split_lines loop_input = [''for each r in records'', ''{'', call_line, ''}'']"
  by (simp add: loop_input_def call_line_def)

lemma loop_input_scope:
  "update_scope (scope_line (scope_line initial_scope ''for each r in records'') ''{'') call_line =
     \<lparr> braceStack = [True], expectingLoopBrace = False \<rparr>"
  by code_simp

lemma call_line_facts:
  "\<not> is_comment_line call_line" "\<not> has_hardcoded_id call_line"
  "\<not> semicolon_missing (code_part call_line)" "assignment_match call_line = None"
  "has_api_call call_line"
  by code_simp+

lemma call_line_alone_scope: "update_scope initial_scope call_line = initial_scope"
  by code_simp

lemma starts_with_keyword_iff:
  "starts_with_keyword cp \<longleftrightarrow>
     (\<exists>kw \<in> {''if'', ''else'', ''for'', ''while''}. \<exists>rest.
        cp = kw @ rest \<and> (rest = [] \<or> \<not> is_word (hd rest)))"
proof -
  have *: "startsWith cp kw \<and> \<not> word_at (first_char (drop (length kw) cp)) \<longleftrightarrow>
      (\<exists>rest. cp = kw @ rest \<and> (rest = [] \<or> \<not> is_word (hd rest)))" for kw
  proof
    assume a: "startsWith cp kw \<and> \<not> word_at (first_char (drop (length kw) cp))"
    then have "cp = kw @ drop (length kw) cp"
      by (metis append_take_drop_id startsWith_def)
    moreover from a have "drop (length kw) cp = [] \<or> \<not> is_word (hd (drop (length kw) cp))"
      by (cases "drop (length kw) cp") (simp_all add: word_at_def first_char_def)
    ultimately show "\<exists>rest. cp = kw @ rest \<and> (rest = [] \<or> \<not> is_word (hd rest))"
      by blast
  next
    assume "\<exists>rest. cp = kw @ rest \<and> (rest = [] \<or> \<not> is_word (hd rest))"
    then obtain rest where r: "cp = kw @ rest" "rest = [] \<or> \<not> is_word (hd rest)" by blast
    then show "startsWith cp kw \<and> \<not> word_at (first_char (drop (length kw) cp))"
      by (cases rest) (simp_all add: startsWith_def word_at_def first_char_def)
  qed
  show ?thesis
    unfolding starts_with_keyword_def by (simp add: *)
qed

lemma endsWith_single: "endsWith s [c] \<longleftrightarrow> s \<noteq> [] \<and> last s = c"
proof (cases s rule: rev_cases)
  case Nil
  then show ?thesis by (simp add: endsWith_def)
next
  case (snoc ys y)
  then show ?thesis by (auto simp: endsWith_def)
qed

lemma semicolon_missing_iff:
  "semicolon_missing cp \<longleftrightarrow>
     cp \<noteq> [] \<and> last cp \<notin> {CHR '';'', CHR ''{'', CHR ''}'', CHR '':''} \<and>
     \<not> (\<exists>kw \<in> {''if'', ''else'', ''for'', ''while''}. \<exists>rest.
          cp = kw @ rest \<and> (rest = [] \<or> \<not> is_word (hd rest)))"
  unfolding semicolon_missing_def starts_with_keyword_iff endsWith_single by auto

lemma not_inside_initially: "\<not> isInsideLoop initial_scope"
  by (simp add: isInsideLoop_def initial_scope_def)

lemma opens_simps [simp]:
  "opens [] = 0" "opens (w @ v) = opens w + opens v"
  "opens [c] = (if c = CHR ''{'' then 1 else 0)"
  by (simp_all add: opens_def)

lemma closes_simps [simp]:
  "closes [] = 0" "closes (w @ v) = closes w + closes v"
  "closes [c] = (if c = CHR ''}'' then 1 else 0)"
  by (simp_all add: closes_def)

lemma stays_open_iff:
  "stays_open w \<longleftrightarrow> (\<forall>k \<le> length w. closes (take k w) \<le> opens (take k w))"
  by (auto simp: stays_open_def list_all_iff less_Suc_eq_le)

lemma stays_open_Nil [simp]: "stays_open []"
  by (simp add: stays_open_iff)

lemma stays_open_total: "stays_open w \<Longrightarrow> closes w \<le> opens w"
  by (auto simp: stays_open_iff dest: spec [of _ "length w"])

lemma stays_open_snoc:
  "stays_open (w @ [x]) \<longleftrightarrow> stays_open w \<and> closes (w @ [x]) \<le> opens (w @ [x])"
proof
  assume a: "stays_open (w @ [x])"
  have "closes (take k w) \<le> opens (take k w)" if "k \<le> length w" for k
    using a that by (auto simp: stays_open_iff dest!: spec [of _ k])
  with stays_open_total [OF a] show "stays_open w \<and> closes (w @ [x]) \<le> opens (w @ [x])"
    by (simp add: stays_open_iff)
next
  assume a: "stays_open w \<and> closes (w @ [x]) \<le> opens (w @ [x])"
  show "stays_open (w @ [x])"
    unfolding stays_open_iff
  proof (intro allI impI)
    fix k assume "k \<le> length (w @ [x])"
    then consider "k \<le> length w" | "k = Suc (length w)" by fastforce
    then show "closes (take k (w @ [x])) \<le> opens (take k (w @ [x]))"
    proof cases
      case 1
      with a show ?thesis by (simp add: stays_open_iff)
    next
      case 2
      with a show ?thesis by simp
    qed
  qed
qed

lemma is_unmatched_snoc:
  "is_unmatched (bs @ [x]) i \<longleftrightarrow>
     (is_unmatched bs i \<and>
        closes (drop (Suc i) bs @ [x]) \<le> opens (drop (Suc i) bs @ [x])) \<or>
     (i = length bs \<and> x = CHR ''{'')"
proof (cases "i < length bs")
  case True
  then show ?thesis
    by (auto simp: is_unmatched_def nth_append stays_open_snoc)
next
  case False
  then show ?thesis
    by (auto simp: is_unmatched_def nth_append)
qed

lemma is_unmatched_length [simp]: "\<not> is_unmatched bs (length bs)"
  by (simp add: is_unmatched_def)

lemma unmatched_snoc:
  "unmatched (bs @ [x]) =
     filter (\<lambda>i. closes (drop (Suc i) bs @ [x]) \<le> opens (drop (Suc i) bs @ [x])) (unmatched bs) @
     (if x = CHR ''{'' then [length bs] else [])"
proof -
  have "filter (is_unmatched (bs @ [x])) [0..<length bs] =
      filter (\<lambda>i. closes (drop (Suc i) bs @ [x]) \<le> opens (drop (Suc i) bs @ [x]))
        (filter (is_unmatched bs) [0..<length bs])"
    by (auto simp: is_unmatched_snoc intro: filter_cong)
  then show ?thesis
    by (simp add: unmatched_def is_unmatched_snoc)
qed

lemma unmatched_less: "i \<in> set (unmatched bs) \<Longrightarrow> i < length bs"
  by (simp add: unmatched_def)

lemma unmatched_stays_open: "i \<in> set (unmatched bs) \<Longrightarrow> stays_open (drop (Suc i) bs)"
  by (simp add: unmatched_def is_unmatched_def)

lemma unmatched_sorted: "sorted_wrt (<) (unmatched bs)"
  by (simp add: unmatched_def sorted_wrt_filter)

lemma unmatched_snoc_open: "unmatched (bs @ [CHR ''{'']) = unmatched bs @ [length bs]"
  using unmatched_stays_open [THEN stays_open_total, of _ bs]
  by (simp add: unmatched_snoc filter_id_conv le_SucI)

lemma unmatched_snoc_other:
  "x \<noteq> CHR ''{'' \<Longrightarrow> x \<noteq> CHR ''}'' \<Longrightarrow> unmatched (bs @ [x]) = unmatched bs"
  using unmatched_stays_open [THEN stays_open_total, of _ bs]
  by (simp add: unmatched_snoc filter_id_conv)

lemma unmatched_snoc_close_filter:
  "unmatched (bs @ [CHR ''}'']) =
     filter (\<lambda>i. closes (drop (Suc i) bs) < opens (drop (Suc i) bs)) (unmatched bs)"
  by (simp add: unmatched_snoc Suc_le_eq)

lemma filter_has_greater:
  "sorted_wrt (<) (U :: nat list) \<Longrightarrow> filter (\<lambda>i. filter (\<lambda>j. i < j) U \<noteq> []) U = butlast U"
proof (induction U rule: rev_induct)
  case Nil
  then show ?case by simp
next
  case (snoc m V)
  then have lt: "\<And>i. i \<in> set V \<Longrightarrow> i < m"
    by (simp add: sorted_wrt_append)
  then have "filter (\<lambda>i. filter (\<lambda>j. i < j) (V @ [m]) \<noteq> []) V = V"
    by (simp add: filter_id_conv)
  moreover have "filter (\<lambda>j. m < j) V = []"
    by (auto simp: filter_empty_conv dest: lt)
  ultimately show ?case by simp
qed

lemma count_greater_butlast:
  assumes "sorted_wrt (<) (U :: nat list)" and "i \<in> set (butlast U)"
  shows "length (filter (\<lambda>j. i < j) U) = Suc (length (filter (\<lambda>j. i < j) (butlast U)))"
proof (cases U rule: rev_cases)
  case Nil
  with assms show ?thesis by simp
next
  case (snoc V m)
  with assms have "i < m" by (simp add: sorted_wrt_append)
  with snoc show ?thesis by simp
qed

lemma unmatched_balance:
  "i \<in> set (unmatched bs) \<Longrightarrow>
     opens (drop (Suc i) bs) =
       closes (drop (Suc i) bs) + length (filter (\<lambda>j. i < j) (unmatched bs))"
proof (induction bs arbitrary: i rule: rev_induct)
  case Nil
  then show ?case by (simp add: unmatched_def)
next
  case (snoc x bs)
  note IH = snoc.IH
  consider (op) "x = CHR ''{''" | (cl) "x = CHR ''}''" | (ot) "x \<noteq> CHR ''{''" "x \<noteq> CHR ''}''"
    by blast
  then show ?case
  proof cases
    case op
    from snoc.prems op have "i \<in> set (unmatched bs) \<or> i = length bs"
      by (auto simp: unmatched_snoc_open)
    then show ?thesis
    proof
      assume i: "i \<in> set (unmatched bs)"
      then have "i < length bs" by (rule unmatched_less)
      with IH [OF i] op show ?thesis
        by (simp add: unmatched_snoc_open)
    next
      assume i: "i = length bs"
      have "filter (\<lambda>j. length bs < j) (unmatched bs) = []"
        by (auto simp: filter_empty_conv dest: unmatched_less)
      with i op show ?thesis
        by (simp add: unmatched_snoc_open)
    qed
  next
    case cl
    have U: "unmatched (bs @ [x]) = butlast (unmatched bs)"
    proof -
      have "filter (\<lambda>i. closes (drop (Suc i) bs) < opens (drop (Suc i) bs)) (unmatched bs) =
          filter (\<lambda>i. filter (\<lambda>j. i < j) (unmatched bs) \<noteq> []) (unmatched bs)"
        using IH by (intro filter_cong refl) simp
      with cl show ?thesis
        by (simp add: unmatched_snoc_close_filter filter_has_greater unmatched_sorted)
    qed
    from snoc.prems U have i: "i \<in> set (butlast (unmatched bs))" by simp
    then have i': "i \<in> set (unmatched bs)" by (rule in_set_butlastD)
    then have "i < length bs" by (rule unmatched_less)
    with IH [OF i'] count_greater_butlast [OF unmatched_sorted i] cl U show ?thesis
      by simp
  next
    case ot
    with snoc.prems have i: "i \<in> set (unmatched bs)"
      by (simp add: unmatched_snoc_other)
    then have "i < length bs" by (rule unmatched_less)
    with IH [OF i] ot show ?thesis
      by (simp add: unmatched_snoc_other)
  qed
qed

lemma unmatched_snoc_close: "unmatched (bs @ [CHR ''}'']) = butlast (unmatched bs)"
proof -
  have "filter (\<lambda>i. closes (drop (Suc i) bs) < opens (drop (Suc i) bs)) (unmatched bs) =
      filter (\<lambda>i. filter (\<lambda>j. i < j) (unmatched bs) \<noteq> []) (unmatched bs)"
    using unmatched_balance [of _ bs] by (intro filter_cong refl) simp
  then show ?thesis
    by (simp add: unmatched_snoc_close_filter filter_has_greater unmatched_sorted)
qed

lemma braceStack_brace_step:
  "braceStack (brace_step sc b) = replay_step (braceStack sc) (b, expectingLoopBrace sc)"
  by (simp add: brace_step_def replay_step_def)

lemma braceStack_trace_braces:
  "braceStack (foldl brace_step sc bs) = foldl replay_step (braceStack sc) (trace_braces sc bs)"
  by (induction bs arbitrary: sc) (simp_all add: braceStack_brace_step)

lemma braceStack_scan_keyword [simp]: "braceStack (scan_keyword sc l) = braceStack sc"
  by (simp add: scan_keyword_def)

lemma braceStack_scope_line:
  "braceStack (scope_line sc l) = foldl replay_step (braceStack sc) (trace_line sc l)"
  by (simp add: scope_line_def trace_line_def update_scope_def braceStack_trace_braces)

lemma braceStack_trace_lines:
  "braceStack (foldl scope_line sc ls) = foldl replay_step (braceStack sc) (trace_lines sc ls)"
  by (induction ls arbitrary: sc) (simp_all add: braceStack_scope_line)

lemma trace_braces_take: "take k (trace_braces sc bs) = trace_braces sc (take k bs)"
proof (induction bs arbitrary: sc k)
  case Nil
  then show ?case by simp
next
  case (Cons b bs)
  then show ?case by (cases k) simp_all
qed

lemma map_fst_trace_braces [simp]: "map fst (trace_braces sc bs) = bs"
  by (induction bs arbitrary: sc) simp_all

lemma map_fst_trace_lines:
  "map fst (trace_lines sc ls) =
     concat (map braces_of (filter (\<lambda>l. \<not> is_comment_line l) ls))"
  by (induction ls arbitrary: sc) (simp_all add: trace_line_def)

lemma replay_unmatched:
  "foldl replay_step [] tr = map (\<lambda>i. snd (tr ! i)) (unmatched (map fst tr))"
proof (induction tr rule: rev_induct)
  case Nil
  then show ?case by (simp add: unmatched_def)
next
  case (snoc x tr)
  obtain c b where x: "x = (c, b)" by (cases x)
  have nth: "map (\<lambda>i. snd ((tr @ [x]) ! i)) U = map (\<lambda>i. snd (tr ! i)) U"
    if "set U \<subseteq> set (unmatched (map fst tr))" for U
    using that unmatched_less [of _ "map fst tr"] by (auto simp: nth_append)
  consider (op) "c = CHR ''{''" | (cl) "c = CHR ''}''" | (ot) "c \<noteq> CHR ''{''" "c \<noteq> CHR ''}''"
    by blast
  then show ?case
  proof cases
    case op
    with snoc x nth [of "unmatched (map fst tr)"] show ?thesis
      by (simp add: replay_step_def unmatched_snoc_open)
  next
    case cl
    have "set (butlast (unmatched (map fst tr))) \<subseteq> set (unmatched (map fst tr))"
      by (auto dest: in_set_butlastD)
    from nth [OF this] snoc x cl show ?thesis
      by (simp add: replay_step_def unmatched_snoc_close map_butlast)
  next
    case ot
    with snoc x nth [of "unmatched (map fst tr)"] show ?thesis
      by (simp add: replay_step_def unmatched_snoc_other)
  qed
qed

lemma scope_after_lines:
  "fst (foldl (process_line config) (sc, errs) (enumerate n ls)) = foldl scope_line sc ls"
  by (simp add: foldl_process_line map_snd_enumerate)

lemma foldl_replay_append:
  "foldl replay_step st (t1 @ t2) = foldl replay_step (foldl replay_step st t1) t2"
  by simp

lemma braceStack_scan_point:
  "braceStack (scan_point ls l k) =
     map (\<lambda>i. snd (trace_point ls l k ! i)) (unmatched (map fst (trace_point ls l k)))"
proof -
  have "braceStack (foldl scope_line initial_scope ls) =
      foldl replay_step [] (trace_lines initial_scope ls)"
    by (simp add: braceStack_trace_lines initial_scope_def)
  then have "braceStack (scan_point ls l k) = foldl replay_step [] (trace_point ls l k)"
    by (simp add: scan_point_def trace_point_def braceStack_trace_braces)
  then show ?thesis by (simp add: replay_unmatched)
qed

lemma set_unmatched: "set (unmatched bs) = {i. is_unmatched bs i}"
  by (auto simp: unmatched_def is_unmatched_def)

lemma isInsideLoop_iff: "isInsideLoop sc \<longleftrightarrow> True \<in> set (braceStack sc)"
  by (auto simp: isInsideLoop_def list_ex_iff)

lemma pop_empty: "braceStack sc = [] \<Longrightarrow> brace_step sc (CHR ''}'') = sc"
  by (simp add: brace_step_def)

lemma unbalanced_lines:
  "split_lines unbalanced_input =
     [''}'', ''for each r in records {'', ''}'', ''}'', ''x = zoho.crm.getRecords();'']"
  by (simp add: unbalanced_input_def)

lemma expecting_scan_keyword:
  "expectingLoopBrace (scan_keyword sc l) \<longleftrightarrow> expectingLoopBrace sc \<or> has_for_each l"
  by (simp add: scan_keyword_def)

lemma expecting_brace_step:
  "expectingLoopBrace (brace_step sc b) \<longleftrightarrow> expectingLoopBrace sc \<and> b \<noteq> CHR ''{''"
  by (simp add: brace_step_def)

lemma expecting_braces:
  "expectingLoopBrace (foldl brace_step sc bs) \<longleftrightarrow>
     expectingLoopBrace sc \<and> CHR ''{'' \<notin> set bs"
  by (induction bs arbitrary: sc) (auto simp: expecting_brace_step)

lemma open_consumes:
  "expectingLoopBrace sc \<Longrightarrow>
     brace_step sc (CHR ''{'') =
       \<lparr> braceStack = braceStack sc @ [True], expectingLoopBrace = False \<rparr>"
  by (simp add: brace_step_def)

lemma next_open_consumes:
  assumes "expectingLoopBrace sc" and "CHR ''{'' \<notin> set pre"
  shows "foldl brace_step sc (pre @ [CHR ''{'']) =
     \<lparr> braceStack = braceStack (foldl brace_step sc pre) @ [True], expectingLoopBrace = False \<rparr>"
  using assms by (simp add: open_consumes expecting_braces)

lemma braces_of_no_open: "CHR ''{'' \<notin> set l \<Longrightarrow> CHR ''{'' \<notin> set (braces_of l)"
  by (simp add: braces_of_def)

lemma expecting_kept_line:
  assumes "expectingLoopBrace sc" and "is_comment_line l \<or> CHR ''{'' \<notin> set l"
  shows "expectingLoopBrace (scope_line sc l)"
  using assms
  by (auto simp: scope_line_def update_scope_def expecting_braces expecting_scan_keyword
        braces_of_no_open)

lemma expecting_kept_lines:
  assumes "expectingLoopBrace sc" and "\<forall>l \<in> set ls. is_comment_line l \<or> CHR ''{'' \<notin> set l"
  shows "expectingLoopBrace (foldl scope_line sc ls)"
  using assms by (induction ls arbitrary: sc) (simp_all add: expecting_kept_line)

lemma plain_braces:
  assumes "\<not> expectingLoopBrace sc"
  shows "x \<in> set (trace_braces sc bs) \<Longrightarrow> \<not> snd x"
  using assms
proof (induction bs arbitrary: sc)
  case Nil
  then show ?case by simp
next
  case (Cons b bs)
  from Cons.prems(2) have "\<not> expectingLoopBrace (brace_step sc b)"
    by (simp add: expecting_brace_step)
  with Cons show ?case by auto
qed

lemma plain_line:
  assumes "\<not> expectingLoopBrace sc" and "is_comment_line l \<or> \<not> has_for_each l"
  shows "(x \<in> set (trace_line sc l) \<longrightarrow> \<not> snd x) \<and> \<not> expectingLoopBrace (scope_line sc l)"
proof (cases "is_comment_line l")
  case True
  with assms show ?thesis by (simp add: trace_line_def scope_line_def)
next
  case False
  with assms have "\<not> expectingLoopBrace (scan_keyword sc l)"
    by (simp add: expecting_scan_keyword)
  with False plain_braces [of "scan_keyword sc l" x "braces_of l"] show ?thesis
    by (auto simp: trace_line_def scope_line_def update_scope_def expecting_braces)
qed

lemma plain_lines:
  assumes "\<not> expectingLoopBrace sc" and "\<forall>l \<in> set ls. is_comment_line l \<or> \<not> has_for_each l"
  shows "(x \<in> set (trace_lines sc ls) \<longrightarrow> \<not> snd x) \<and>
         \<not> expectingLoopBrace (foldl scope_line sc ls)"
  using assms
proof (induction ls arbitrary: sc)
  case Nil
  then show ?case by simp
next
  case (Cons l ls)
  from Cons.prems have l: "is_comment_line l \<or> \<not> has_for_each l"
    and ls: "\<forall>l \<in> set ls. is_comment_line l \<or> \<not> has_for_each l" by simp_all
  from plain_line [OF Cons.prems(1) l, of x] Cons.IH [OF _ ls, of "scope_line sc l"]
  show ?case by auto
qed

lemma loop_pushes_braces:
  "loop_pushes (trace_braces sc bs) + (if expectingLoopBrace (foldl brace_step sc bs) then 1 else 0) =
     (if expectingLoopBrace sc then 1 else 0)"
proof (induction bs arbitrary: sc)
  case Nil
  then show ?case by (simp add: loop_pushes_def)
next
  case (Cons b bs)
  have c: "loop_pushes (trace_braces sc (b # bs)) =
      (if b = CHR ''{'' \<and> expectingLoopBrace sc then 1 else 0) +
      loop_pushes (trace_braces (brace_step sc b) bs)"
    by (simp add: loop_pushes_def)
  have f: "foldl brace_step sc (b # bs) = foldl brace_step (brace_step sc b) bs"
    by simp
  show ?case
    unfolding c f using Cons.IH [of "brace_step sc b"]
    by (cases "b = CHR ''{''"; cases "expectingLoopBrace sc")
       (simp_all add: expecting_brace_step)
qed

lemma loop_pushes_append [simp]: "loop_pushes (t1 @ t2) = loop_pushes t1 + loop_pushes t2"
  by (simp add: loop_pushes_def)

lemma loop_pushes_line:
  "loop_pushes (trace_line sc l) + (if expectingLoopBrace (scope_line sc l) then 1 else 0) \<le>
     (if \<not> is_comment_line l \<and> has_for_each l then 1 else 0) +
     (if expectingLoopBrace sc then 1 else 0)"
proof (cases "is_comment_line l")
  case True
  then show ?thesis by (simp add: trace_line_def scope_line_def loop_pushes_def)
next
  case False
  with loop_pushes_braces [of "scan_keyword sc l" "braces_of l"] show ?thesis
    by (simp add: trace_line_def scope_line_def update_scope_def expecting_scan_keyword)
qed

lemma loop_pushes_lines:
  "loop_pushes (trace_lines sc ls) + (if expectingLoopBrace (foldl scope_line sc ls) then 1 else 0) \<le>
     keyword_lines ls + (if expectingLoopBrace sc then 1 else 0)"
proof (induction ls arbitrary: sc)
  case Nil
  then show ?case by (simp add: loop_pushes_def keyword_lines_def)
next
  case (Cons l ls)
  have k: "keyword_lines (l # ls) =
      (if \<not> is_comment_line l \<and> has_for_each l then 1 else 0) + keyword_lines ls"
    by (simp add: keyword_lines_def)
  from Cons.IH [of "scope_line sc l"] loop_pushes_line [of sc l] show ?case
    unfolding k by simp
qed

lemma one_line_form:
  "foldl scope_line sc [''for each x in list {''] =
     \<lparr> braceStack = braceStack sc @ [True], expectingLoopBrace = False \<rparr>"
proof -
  have "\<not> is_comment_line ''for each x in list {''" "has_for_each ''for each x in list {''"
    "braces_of ''for each x in list {'' = ''{''"
    by code_simp+
  then show ?thesis
    by (simp add: scope_line_def update_scope_def scan_keyword_def brace_step_def)
qed

lemma two_line_form:
  "foldl scope_line sc [''for each x in list'', ''{''] =
     \<lparr> braceStack = braceStack sc @ [True], expectingLoopBrace = False \<rparr>"
proof -
  have "\<not> is_comment_line ''for each x in list''" "has_for_each ''for each x in list''"
    "braces_of ''for each x in list'' = []"
    "\<not> is_comment_line ''{''" "\<not> has_for_each ''{''" "braces_of ''{'' = ''{''"
    by code_simp+
  then show ?thesis
    by (simp add: scope_line_def update_scope_def scan_keyword_def brace_step_def)
qed

text \<open>\<open>trim\<close> and the text before the first \<open>//\<close>, characterised.\<close>

lemma trim_decomp:
  "\<exists>a b. s = a @ trim s @ b \<and> list_all is_space a \<and> list_all is_space b \<and>
         (trim s = [] \<or> \<not> is_space (hd (trim s)) \<and> \<not> is_space (last (trim s)))"
proof -
  let ?a = "takeWhile is_space s"
  let ?m = "dropWhile is_space s"
  let ?b = "rev (takeWhile is_space (rev ?m))"
  have m: "?m = trim s @ ?b"
  proof -
    have "rev (takeWhile is_space (rev ?m) @ dropWhile is_space (rev ?m)) =
        rev (dropWhile is_space (rev ?m)) @ rev (takeWhile is_space (rev ?m))"
      by (simp only: rev_append)
    then have "rev (rev ?m) =
        rev (dropWhile is_space (rev ?m)) @ rev (takeWhile is_space (rev ?m))"
      by (simp only: takeWhile_dropWhile_id)
    then show ?thesis by (simp only: rev_rev_ident trim_def)
  qed
  have s: "s = ?a @ trim s @ ?b"
    using m takeWhile_dropWhile_id [of is_space s] by simp
  have a: "list_all is_space ?a"
    by (auto simp: list_all_iff dest: set_takeWhileD)
  have b: "list_all is_space ?b"
    by (auto simp: list_all_iff dest: set_takeWhileD)
  have e: "\<not> is_space (hd (trim s)) \<and> \<not> is_space (last (trim s))" if n: "trim s \<noteq> []"
  proof
    from n have d: "dropWhile is_space (rev ?m) \<noteq> []"
      by (simp add: trim_def)
    then have "\<not> is_space (hd (dropWhile is_space (rev ?m)))"
      by (rule hd_dropWhile)
    with d show "\<not> is_space (last (trim s))"
      by (simp add: trim_def last_rev)
    from n m have "?m \<noteq> []" by (metis Nil_is_append_conv)
    then have "\<not> is_space (hd ?m)" by (rule hd_dropWhile)
    moreover from n m have "hd ?m = hd (trim s)"
      by (metis hd_append2)
    ultimately show "\<not> is_space (hd (trim s))" by simp
  qed
  from s a b e show ?thesis by blast
qed

lemma before_slashes_split:
  "\<exists>r. s = before_slashes s @ r \<and> (r = [] \<or> startsWith r ''//'')"
proof (induction s)
  case Nil
  then show ?case by simp
next
  case (Cons c cs)
  then show ?case by (cases "startsWith (c # cs) ''//''") auto
qed

lemma before_slashes_first:
  "i < length (before_slashes s) \<Longrightarrow> \<not> startsWith (drop i s) ''//''"
proof (induction s arbitrary: i)
  case Nil
  then show ?case by simp
next
  case (Cons c cs)
  show ?case
  proof (cases "startsWith (c # cs) ''//''")
    case True
    with Cons.prems show ?thesis by simp
  next
    case False
    show ?thesis
    proof (cases i)
      case 0
      with False show ?thesis by simp
    next
      case (Suc j)
      with Cons.prems False have "j < length (before_slashes cs)" by simp
      from Cons.IH [OF this] Suc show ?thesis by simp
    qed
  qed
qed

lemma before_slashes_first_take:
  "i < length (before_slashes s) \<Longrightarrow> take 2 (drop i s) \<noteq> ''//''"
  using before_slashes_first [of i s] by (simp add: startsWith_def numeral_2_eq_2)

lemma before_slashes_split_take:
  "\<exists>r. s = before_slashes s @ r \<and> (r = [] \<or> take 2 r = ''//'')"
  using before_slashes_split [of s] by (simp add: startsWith_def numeral_2_eq_2)

section \<open>The claims\<close>

text \<open>
  C10.  Every \<open>max-lines-per-function\<close> diagnostic returned by \<open>analyzeDeluge\<close> has
  severity \<open>warning\<close>, for every input text and every configuration; the rule never
  yields an \<open>error\<close>.
\<close>

theorem max_lines_severity_warning:
  "\<forall>d \<in> set (analyzeDeluge code config).
      ruleId d = Some ''max-lines-per-function'' \<longrightarrow> type d = Warning"
proof (intro ballI impI)
  fix d
  assume d: "d \<in> set (analyzeDeluge code config)"
    and r: "ruleId d = Some ''max-lines-per-function''"
  from d consider "d \<in> set (check_max_lines config (split_lines code))"
    | "d \<in> set (diags_from config initial_scope (enumerate 0 (split_lines code)))"
    by (auto simp: analyzeDeluge_eq)
  then show "type d = Warning"
  proof cases
    case 1
    then show ?thesis by (simp add: check_max_lines_mem)
  next
    case 2
    from diags_from_ruleId [OF 2] r show ?thesis by simp
  qed
qed

theorem max_lines_severity_warning_witness:
  "max_lines_error 3 2 \<in>
     set (analyzeDeluge three_lines (config_with ''max-lines-per-function'' (Num 2))) \<and>
   ruleId (max_lines_error 3 2) = Some ''max-lines-per-function'' \<and>
   type (max_lines_error 3 2) = Warning"
proof -
  have m: "max_lines_error 3 2 \<in>
      set (analyzeDeluge three_lines (config_with ''max-lines-per-function'' (Num 2)))"
    by code_simp
  have r: "ruleId (max_lines_error 3 2) = Some ''max-lines-per-function''"
    by simp
  from max_lines_severity_warning
         [of three_lines "config_with ''max-lines-per-function'' (Num 2)"] m r
  have "type (max_lines_error 3 2) = Warning" by blast
  with m r show ?thesis by blast
qed

text \<open>
  C6.  With \<open>max-lines-per-function\<close> configured as a number \<open>N\<close>: if the number of
  lines of the input exceeds \<open>N\<close>, the result holds exactly one diagnostic of that rule,
  on line 1, however large the excess; otherwise it holds none.  In particular a
  three-line input with \<open>N = 2\<close> gets exactly one, on line 1.
\<close>

theorem max_lines_fires_once:
  assumes "rules config ''max-lines-per-function'' = Some (Num N)"
  shows "(N < int (length (split_lines code)) \<longrightarrow>
           filter (\<lambda>d. ruleId d = Some ''max-lines-per-function'') (analyzeDeluge code config) =
             [max_lines_error (length (split_lines code)) N] \<and>
           line (max_lines_error (length (split_lines code)) N) = 1) \<and>
         (\<not> N < int (length (split_lines code)) \<longrightarrow>
           filter (\<lambda>d. ruleId d = Some ''max-lines-per-function'') (analyzeDeluge code config) =
             []) \<and>
         (N = 2 \<and> length (split_lines code) = 3 \<longrightarrow>
           (\<exists>d. filter (\<lambda>d. ruleId d = Some ''max-lines-per-function'')
                  (analyzeDeluge code config) = [d] \<and> line d = 1))"
  using assms by (simp add: filter_max_lines check_max_lines_eq)

theorem max_lines_fires_once_witness:
  "rules (config_with ''max-lines-per-function'' (Num 2)) ''max-lines-per-function'' =
     Some (Num 2) \<and>
   length (split_lines three_lines) = 3 \<and>
   (\<exists>d. filter (\<lambda>d. ruleId d = Some ''max-lines-per-function'')
          (analyzeDeluge three_lines (config_with ''max-lines-per-function'' (Num 2))) = [d] \<and>
        line d = 1) \<and>
   filter (\<lambda>d. ruleId d = Some ''max-lines-per-function'')
     (analyzeDeluge three_lines (config_with ''max-lines-per-function'' (Num 3))) = []"
proof -
  have c2: "rules (config_with ''max-lines-per-function'' (Num 2)) ''max-lines-per-function'' =
      Some (Num 2)"
    by (simp add: config_with_def)
  have c3: "rules (config_with ''max-lines-per-function'' (Num 3)) ''max-lines-per-function'' =
      Some (Num 3)"
    by (simp add: config_with_def)
  have len: "length (split_lines three_lines) = 3"
    by (simp add: three_lines_def)
  from max_lines_fires_once [OF c2, of three_lines] max_lines_fires_once [OF c3, of three_lines]
    c2 len
  show ?thesis by simp
qed

text \<open>
  C8.  If the value of \<open>max-lines-per-function\<close> is a string (such as \<open>"100"\<close> or
  \<open>off\<close>) and not a number, the rule is disabled: no diagnostic of that rule is
  returned, and the result is the one obtained with the key removed, so the rest of the
  scan is as usual.
\<close>

theorem max_lines_not_a_number:
  assumes "rules config ''max-lines-per-function'' = Some (Str s)"
  shows "filter (\<lambda>d. ruleId d = Some ''max-lines-per-function'') (analyzeDeluge code config) = [] \<and>
         analyzeDeluge code config =
           analyzeDeluge code (config \<lparr> rules := (rules config)(''max-lines-per-function'' := None) \<rparr>)"
proof -
  let ?c = "config \<lparr> rules := (rules config)(''max-lines-per-function'' := None) \<rparr>"
  have "diags_from config sc xs = diags_from ?c sc xs" for sc xs
    by (rule diags_from_cong) simp_all
  moreover have "check_max_lines config ls = []" "check_max_lines ?c ls = []" for ls
    using assms by (simp_all add: check_max_lines_eq)
  ultimately show ?thesis
    by (simp add: filter_max_lines) (simp add: analyzeDeluge_eq)
qed

theorem max_lines_not_a_number_witness:
  "rules (config_with ''max-lines-per-function'' (Str ''100'')) ''max-lines-per-function'' =
     Some (Str ''100'') \<and>
   filter (\<lambda>d. ruleId d = Some ''max-lines-per-function'')
     (analyzeDeluge three_lines (config_with ''max-lines-per-function'' (Str ''100''))) = [] \<and>
   analyzeDeluge ''info x'' (config_with ''max-lines-per-function'' (Str ''100'')) =
     [semicolon_error 1 (Str ''error'')]"
proof -
  have c: "rules (config_with ''max-lines-per-function'' (Str ''100'')) ''max-lines-per-function'' =
      Some (Str ''100'')"
    by (simp add: config_with_def)
  have e: "analyzeDeluge ''info x'' (config_with ''max-lines-per-function'' (Str ''100'')) =
     [semicolon_error 1 (Str ''error'')]"
    by code_simp
  from max_lines_not_a_number [OF c, of three_lines, THEN conjunct1] c e
  show ?thesis by (intro conjI)
qed

text \<open>
  C9.  The text is split at each line feed, so a text ending in a line feed has one more,
  empty, last line, and that line counts: with \<open>max-lines-per-function\<close> set to the
  number of lines of \<open>t\<close>, the text \<open>t\<close> followed by a line feed triggers the rule
  and \<open>t\<close> itself does not.
\<close>

theorem trailing_newline_adds_a_line:
  "split_lines (t @ [CHR 0x0A]) = split_lines t @ [[]] \<and>
   length (split_lines t) = Suc (count_list t (CHR 0x0A)) \<and>
   (rules config ''max-lines-per-function'' = Some (Num (int (length (split_lines t)))) \<longrightarrow>
      filter (\<lambda>d. ruleId d = Some ''max-lines-per-function'')
        (analyzeDeluge (t @ [CHR 0x0A]) config) =
        [max_lines_error (length (split_lines t) + 1) (int (length (split_lines t)))] \<and>
      filter (\<lambda>d. ruleId d = Some ''max-lines-per-function'') (analyzeDeluge t config) = [])"
  by (simp add: split_lines_snoc_newline length_split_lines filter_max_lines check_max_lines_eq)

theorem trailing_newline_adds_a_line_witness:
  "rules (config_with ''max-lines-per-function'' (Num 3)) ''max-lines-per-function'' =
     Some (Num (int (length (split_lines three_lines)))) \<and>
   filter (\<lambda>d. ruleId d = Some ''max-lines-per-function'')
     (analyzeDeluge (three_lines @ [CHR 0x0A]) (config_with ''max-lines-per-function'' (Num 3))) =
     [max_lines_error 4 3] \<and>
   filter (\<lambda>d. ruleId d = Some ''max-lines-per-function'')
     (analyzeDeluge three_lines (config_with ''max-lines-per-function'' (Num 3))) = []"
proof -
  have len: "length (split_lines three_lines) = 3"
    by (simp add: three_lines_def)
  have c: "rules (config_with ''max-lines-per-function'' (Num 3)) ''max-lines-per-function'' =
      Some (Num (int (length (split_lines three_lines))))"
    by (simp add: config_with_def len)
  from trailing_newline_adds_a_line
         [of three_lines "config_with ''max-lines-per-function'' (Num 3)"] c len
  show ?thesis by simp
qed

text \<open>
  C4.  For every input and configuration the returned list is in ascending order of line
  number, and the diagnostics of the four per-line checks that belong to one line appear
  in the order \<open>no-hardcoded-ids\<close>, \<open>require-semicolon\<close>, \<open>camelcase-vars\<close>,
  \<open>enforce-timeout-awareness\<close>, each at most once.
\<close>

theorem diagnostics_order:
  "sorted (map line (analyzeDeluge code config)) \<and>
   (\<forall>n. subseq
          (map ruleId (filter (\<lambda>d. line d = n \<and> ruleId d \<noteq> Some ''max-lines-per-function'')
                         (analyzeDeluge code config)))
          [Some ''no-hardcoded-ids'', Some ''require-semicolon'',
           Some ''camelcase-vars'', Some ''enforce-timeout-awareness''])"
proof (intro conjI allI)
  show "sorted (map line (analyzeDeluge code config))"
    by (rule sorted_analyzeDeluge)
next
  fix n
  let ?ds = "diags_from config initial_scope (enumerate 0 (split_lines code))"
  have "subseq (map ruleId (filter (\<lambda>d. line d = n) ?ds)) per_line_rules"
  proof (cases n)
    case 0
    have "filter (\<lambda>d. line d = 0) ?ds = []"
      using diags_from_lines_ge [of _ config initial_scope 0 "split_lines code"]
      by (fastforce simp: filter_empty_conv)
    with 0 show ?thesis by simp
  next
    case (Suc k)
    then show ?thesis
      by (simp add: diags_from_filter_line line_diags_subseq)
  qed
  then show "subseq
          (map ruleId (filter (\<lambda>d. line d = n \<and> ruleId d \<noteq> Some ''max-lines-per-function'')
                         (analyzeDeluge code config)))
          [Some ''no-hardcoded-ids'', Some ''require-semicolon'',
           Some ''camelcase-vars'', Some ''enforce-timeout-awareness'']"
    by (simp add: filter_line_not_max per_line_rules_def)
qed

theorem diagnostics_order_witness:
  "map (\<lambda>d. (line d, ruleId d)) (analyzeDeluge all_rules_order defaultConfig) =
     [(2, Some ''no-hardcoded-ids''), (2, Some ''require-semicolon''),
      (2, Some ''camelcase-vars''), (2, Some ''enforce-timeout-awareness'')] \<and>
   sorted (map line (analyzeDeluge all_rules_order defaultConfig)) \<and>
   subseq
     (map ruleId (filter (\<lambda>d. line d = 2 \<and> ruleId d \<noteq> Some ''max-lines-per-function'')
                    (analyzeDeluge all_rules_order defaultConfig)))
     [Some ''no-hardcoded-ids'', Some ''require-semicolon'',
      Some ''camelcase-vars'', Some ''enforce-timeout-awareness'']"
proof -
  have e: "map (\<lambda>d. (line d, ruleId d)) (analyzeDeluge all_rules_order defaultConfig) =
     [(2, Some ''no-hardcoded-ids''), (2, Some ''require-semicolon''),
      (2, Some ''camelcase-vars''), (2, Some ''enforce-timeout-awareness'')]"
    by code_simp
  from diagnostics_order [of all_rules_order defaultConfig] e show ?thesis by blast
qed

text \<open>
  C5.  A rule whose value is \<open>off\<close> contributes no diagnostic with its \<open>ruleId\<close>.  A rule
  whose key is absent behaves as if the key held its documented default (\<open>warn\<close>,
  \<open>error\<close>, \<open>warn\<close>, \<open>warn\<close>, and \<open>off\<close> for \<open>max-lines-per-function\<close>): the result
  is the same, and the diagnostics of the rule carry the severity of that default.
\<close>

theorem off_and_defaults:
  "(rules config r = Some (Str ''off'') \<longrightarrow>
      (\<forall>d \<in> set (analyzeDeluge code config). ruleId d \<noteq> Some r)) \<and>
   ((r, v) \<in> set documented_defaults \<and> rules config r = None \<longrightarrow>
      analyzeDeluge code config =
        analyzeDeluge code (config \<lparr> rules := (rules config)(r \<mapsto> v) \<rparr>) \<and>
      (\<forall>d \<in> set (analyzeDeluge code config).
         ruleId d = Some r \<longrightarrow> v \<noteq> Str ''off'' \<and> type d = severity_of v)) \<and>
   map (\<lambda>(r, v). (r, severity_of v)) documented_defaults =
     [(''no-hardcoded-ids'', Warning), (''require-semicolon'', Error),
      (''camelcase-vars'', Warning), (''enforce-timeout-awareness'', Warning),
      (''max-lines-per-function'', Warning)]"
proof (intro conjI impI ballI)
  fix d
  assume "rules config r = Some (Str ''off'')" "d \<in> set (analyzeDeluge code config)"
  then show "ruleId d \<noteq> Some r" by (rule off_rule_silent)
next
  assume "(r, v) \<in> set documented_defaults \<and> rules config r = None"
  then show "analyzeDeluge code config =
        analyzeDeluge code (config \<lparr> rules := (rules config)(r \<mapsto> v) \<rparr>)"
    using absent_key_is_default by blast
next
  fix d
  assume "(r, v) \<in> set documented_defaults \<and> rules config r = None"
    "d \<in> set (analyzeDeluge code config)" "ruleId d = Some r"
  then have *: "v \<noteq> Str ''off'' \<and> type d = severity_of v"
    using absent_key_severity by blast
  from * show "v \<noteq> Str ''off''" ..
  from * show "type d = severity_of v" ..
next
  show "map (\<lambda>(r, v). (r, severity_of v)) documented_defaults =
     [(''no-hardcoded-ids'', Warning), (''require-semicolon'', Error),
      (''camelcase-vars'', Warning), (''enforce-timeout-awareness'', Warning),
      (''max-lines-per-function'', Warning)]"
    by (simp add: documented_defaults_def severity_of_def)
qed

theorem off_and_defaults_witness:
  "rules (config_with ''require-semicolon'' (Str ''off'')) ''require-semicolon'' =
     Some (Str ''off'') \<and>
   filter (\<lambda>d. ruleId d = Some ''require-semicolon'')
     (analyzeDeluge ''info x'' (config_with ''require-semicolon'' (Str ''off''))) = [] \<and>
   (''require-semicolon'', Str ''error'') \<in> set documented_defaults \<and>
   rules empty_config ''require-semicolon'' = None \<and>
   analyzeDeluge ''info x'' empty_config = [semicolon_error 1 (Str ''error'')] \<and>
   analyzeDeluge ''info x'' empty_config =
     analyzeDeluge ''info x''
       (empty_config \<lparr> rules := (rules empty_config)(''require-semicolon'' \<mapsto> Str ''error'') \<rparr>) \<and>
   type (semicolon_error 1 (Str ''error'')) = Error"
proof -
  have a: "rules (config_with ''require-semicolon'' (Str ''off'')) ''require-semicolon'' =
     Some (Str ''off'')"
    by (simp add: config_with_def)
  have b: "(''require-semicolon'', Str ''error'') \<in> set documented_defaults"
    by (simp add: documented_defaults_def)
  have c: "rules empty_config ''require-semicolon'' = None"
    by (simp add: empty_config_def)
  have e: "analyzeDeluge ''info x'' empty_config = [semicolon_error 1 (Str ''error'')]"
    by code_simp
  have s: "severity_of (Str ''error'') = Error"
    by (simp add: severity_of_def)
  from off_and_defaults [of "config_with ''require-semicolon'' (Str ''off'')"
      "''require-semicolon''" "''info x''" "Str ''error''"] a
  have 1: "filter (\<lambda>d. ruleId d = Some ''require-semicolon'')
     (analyzeDeluge ''info x'' (config_with ''require-semicolon'' (Str ''off''))) = []"
    by (simp add: filter_empty_conv)
  note t = off_and_defaults [of empty_config "''require-semicolon''" "''info x''" "Str ''error''"]
  from t b c
  have 2: "analyzeDeluge ''info x'' empty_config =
     analyzeDeluge ''info x''
       (empty_config \<lparr> rules := (rules empty_config)(''require-semicolon'' \<mapsto> Str ''error'') \<rparr>)"
    by blast
  have m: "semicolon_error 1 (Str ''error'') \<in> set (analyzeDeluge ''info x'' empty_config)"
    by (simp add: e)
  have r: "ruleId (semicolon_error 1 (Str ''error'')) = Some ''require-semicolon''"
    by simp
  from t b c m r have 3: "type (semicolon_error 1 (Str ''error'')) = severity_of (Str ''error'')"
    by blast
  from a 1 b c e 2 3 s show ?thesis by (intro conjI) simp_all
qed

text \<open>
  C7.  For a line that is not a comment, the result holds a \<open>require-semicolon\<close>
  diagnostic for that line exactly when the rule is not \<open>off\<close> and \<open>codePart\<close> is not
  empty, does not end in \<open>;\<close>, \<open>{\<close>, \<open>}\<close> or \<open>:\<close>, and does not start with \<open>if\<close>,
  \<open>else\<close>, \<open>for\<close> or \<open>while\<close> as a whole word; and then it holds exactly one.  Here
  \<open>codePart\<close> is the trimmed line cut before its first \<open>//\<close> and trimmed again, where
  trimming removes exactly the white space at both ends and the cut keeps exactly the
  text in front of the first occurrence of \<open>//\<close>.  Under the default configuration
  \<open>info x\<close> gets exactly one, of severity \<open>error\<close>, and \<open>if (x > 1)\<close> gets none; a line
  with a trailing comment is judged by what stands before the comment.
\<close>

theorem semicolon_rule:
  assumes "k < length (split_lines code)"
    and "\<not> is_comment_line (split_lines code ! k)"
  shows "filter (\<lambda>d. line d = Suc k \<and> ruleId d = Some ''require-semicolon'')
           (analyzeDeluge code config) =
         (if or_default (rules config ''require-semicolon'') (Str ''error'') \<noteq> Str ''off'' \<and>
             semicolon_missing (code_part (split_lines code ! k))
          then [semicolon_error (Suc k)
                  (or_default (rules config ''require-semicolon'') (Str ''error''))]
          else []) \<and>
         (semicolon_missing (code_part (split_lines code ! k)) \<longleftrightarrow>
            code_part (split_lines code ! k) \<noteq> [] \<and>
            last (code_part (split_lines code ! k)) \<notin>
              {CHR '';'', CHR ''{'', CHR ''}'', CHR '':''} \<and>
            \<not> (\<exists>kw \<in> {''if'', ''else'', ''for'', ''while''}. \<exists>rest.
                 code_part (split_lines code ! k) = kw @ rest \<and>
                 (rest = [] \<or> \<not> is_word (hd rest)))) \<and>
         code_part (split_lines code ! k) =
           trim (before_slashes (trim (split_lines code ! k))) \<and>
         (\<forall>s. \<exists>a b. s = a @ trim s @ b \<and> list_all is_space a \<and> list_all is_space b \<and>
                 (trim s = [] \<or> \<not> is_space (hd (trim s)) \<and> \<not> is_space (last (trim s)))) \<and>
         (\<forall>s. \<exists>r. s = before_slashes s @ r \<and> (r = [] \<or> take 2 r = ''//'') \<and>
                 (\<forall>i < length (before_slashes s). take 2 (drop i s) \<noteq> ''//'')) \<and>
         analyzeDeluge ''info x'' defaultConfig = [semicolon_error 1 (Str ''error'')] \<and>
         type (semicolon_error 1 (Str ''error'')) = Error \<and>
         filter (\<lambda>d. ruleId d = Some ''require-semicolon'')
           (analyzeDeluge ''if (x > 1)'' defaultConfig) = [] \<and>
         code_part commented_line = ''info x'' \<and>
         analyzeDeluge commented_line defaultConfig = [semicolon_error 1 (Str ''error'')] \<and>
         code_part terminated_line = ''info x;'' \<and>
         analyzeDeluge terminated_line defaultConfig = []"
proof (intro conjI)
  show "filter (\<lambda>d. line d = Suc k \<and> ruleId d = Some ''require-semicolon'')
           (analyzeDeluge code config) =
         (if or_default (rules config ''require-semicolon'') (Str ''error'') \<noteq> Str ''off'' \<and>
             semicolon_missing (code_part (split_lines code ! k))
          then [semicolon_error (Suc k)
                  (or_default (rules config ''require-semicolon'') (Str ''error''))]
          else [])"
    using assms
    by (simp add: analyzeDeluge_line_rule line_diags_def filter_rule_check_line
          check_semicolon_eq)
  show "\<forall>s. \<exists>a b. s = a @ trim s @ b \<and> list_all is_space a \<and> list_all is_space b \<and>
                 (trim s = [] \<or> \<not> is_space (hd (trim s)) \<and> \<not> is_space (last (trim s)))"
    using trim_decomp by blast
  show "\<forall>s. \<exists>r. s = before_slashes s @ r \<and> (r = [] \<or> take 2 r = ''//'') \<and>
                 (\<forall>i < length (before_slashes s). take 2 (drop i s) \<noteq> ''//'')"
    using before_slashes_split_take before_slashes_first_take by blast
  show "analyzeDeluge ''info x'' defaultConfig = [semicolon_error 1 (Str ''error'')]"
    by code_simp
  show "type (semicolon_error 1 (Str ''error'')) = Error"
    by (simp add: severity_of_def)
  show "filter (\<lambda>d. ruleId d = Some ''require-semicolon'')
           (analyzeDeluge ''if (x > 1)'' defaultConfig) = []"
    by code_simp
  show "code_part commented_line = ''info x''"
    by code_simp
  show "analyzeDeluge commented_line defaultConfig = [semicolon_error 1 (Str ''error'')]"
    by code_simp
  show "code_part terminated_line = ''info x;''"
    by code_simp
  show "analyzeDeluge terminated_line defaultConfig = []"
    by code_simp
qed (simp_all add: semicolon_missing_iff code_part_def)

theorem semicolon_rule_witness:
  "0 < length (split_lines commented_line) \<and>
   \<not> is_comment_line (split_lines commented_line ! 0) \<and>
   semicolon_missing (code_part (split_lines commented_line ! 0)) \<and>
   filter (\<lambda>d. line d = Suc 0 \<and> ruleId d = Some ''require-semicolon'')
     (analyzeDeluge commented_line defaultConfig) = [semicolon_error (Suc 0) (Str ''error'')] \<and>
   0 < length (split_lines terminated_line) \<and>
   \<not> is_comment_line (split_lines terminated_line ! 0) \<and>
   \<not> semicolon_missing (code_part (split_lines terminated_line ! 0)) \<and>
   filter (\<lambda>d. line d = Suc 0 \<and> ruleId d = Some ''require-semicolon'')
     (analyzeDeluge terminated_line defaultConfig) = []"
proof -
  have a: "0 < length (split_lines commented_line)" by code_simp
  have b: "\<not> is_comment_line (split_lines commented_line ! 0)" by code_simp
  have c: "semicolon_missing (code_part (split_lines commented_line ! 0))" by code_simp
  have a': "0 < length (split_lines terminated_line)" by code_simp
  have b': "\<not> is_comment_line (split_lines terminated_line ! 0)" by code_simp
  have c': "\<not> semicolon_missing (code_part (split_lines terminated_line ! 0))" by code_simp
  have d: "or_default (rules defaultConfig ''require-semicolon'') (Str ''error'') = Str ''error''"
    by code_simp
  from semicolon_rule [OF a b, of defaultConfig, THEN conjunct1] c d
  have 1: "filter (\<lambda>d. line d = Suc 0 \<and> ruleId d = Some ''require-semicolon'')
     (analyzeDeluge commented_line defaultConfig) = [semicolon_error (Suc 0) (Str ''error'')]"
    by simp
  from semicolon_rule [OF a' b', of defaultConfig, THEN conjunct1] c'
  have 2: "filter (\<lambda>d. line d = Suc 0 \<and> ruleId d = Some ''require-semicolon'')
     (analyzeDeluge terminated_line defaultConfig) = []"
    by simp
  from a b c 1 a' b' c' 2 show ?thesis by (intro conjI)
qed

text \<open>
  C1.  With \<open>enforce-timeout-awareness\<close> at its default severity (key absent, or
  \<open>warn\<close>), the four-line input \<open>for each r in records\<close>, \<open>{\<close>,
  \<open>    zoho.crm.getRecords();\<close>, \<open>}\<close> gets exactly one diagnostic on line 3: a
  \<open>warning\<close> with \<open>ruleId\<close> \<open>enforce-timeout-awareness\<close>.  The call line alone gets no
  diagnostic of that rule.
\<close>

theorem loop_call_flagged:
  assumes "rules config ''enforce-timeout-awareness'' = None \<or>
           rules config ''enforce-timeout-awareness'' = Some (Str ''warn'')"
  shows "filter (\<lambda>d. line d = 3) (analyzeDeluge loop_input config) =
           [timeout_error 3 (Str ''warn'')] \<and>
         type (timeout_error 3 (Str ''warn'')) = Warning \<and>
         ruleId (timeout_error 3 (Str ''warn'')) = Some ''enforce-timeout-awareness'' \<and>
         filter (\<lambda>d. ruleId d = Some ''enforce-timeout-awareness'')
           (analyzeDeluge call_line config) = []"
proof (intro conjI)
  have t: "or_default (rules config ''enforce-timeout-awareness'') (Str ''warn'') = Str ''warn''"
    using assms by (auto simp: or_default_def)
  have "filter (\<lambda>d. line d = 3) (analyzeDeluge loop_input config) =
      filter (\<lambda>d. line d = Suc 2 \<and> ruleId d \<noteq> Some ''max-lines-per-function'')
        (analyzeDeluge loop_input config)"
    using check_max_lines_mem [of _ config "split_lines loop_input"]
      diags_from_not_max_lines [of config initial_scope "enumerate 0 (split_lines loop_input)"]
    by (auto simp: analyzeDeluge_eq filter_empty_conv intro!: filter_cong)
  also have "\<dots> = line_diags config
      (foldl scope_line initial_scope [''for each r in records'', ''{'']) (2, call_line)"
    by (subst analyzeDeluge_line) (simp_all add: loop_input_lines)
  also have "\<dots> = [timeout_error 3 (Str ''warn'')]"
    by (simp add: line_diags_def call_line_facts check_line_def check_hardcoded_ids_eq
          check_semicolon_eq check_camelcase_None check_timeout_eq loop_input_scope t
          isInsideLoop_def)
  finally show "filter (\<lambda>d. line d = 3) (analyzeDeluge loop_input config) =
      [timeout_error 3 (Str ''warn'')]" .
  show "type (timeout_error 3 (Str ''warn'')) = Warning"
    by (simp add: severity_of_def)
  show "ruleId (timeout_error 3 (Str ''warn'')) = Some ''enforce-timeout-awareness''"
    by simp
  have l: "split_lines call_line = [call_line]"
    by (simp add: call_line_def)
  show "filter (\<lambda>d. ruleId d = Some ''enforce-timeout-awareness'')
      (analyzeDeluge call_line config) = []"
    using check_max_lines_mem [of _ config "[call_line]"]
    by (simp add: analyzeDeluge_eq l line_diags_def call_line_facts filter_rule_check_line
          check_timeout_eq call_line_alone_scope not_inside_initially filter_empty_conv)
qed

theorem loop_call_flagged_witness:
  "rules defaultConfig ''enforce-timeout-awareness'' = Some (Str ''warn'') \<and>
   analyzeDeluge loop_input defaultConfig = [timeout_error 3 (Str ''warn'')] \<and>
   filter (\<lambda>d. line d = 3) (analyzeDeluge loop_input defaultConfig) =
     [timeout_error 3 (Str ''warn'')] \<and>
   analyzeDeluge call_line defaultConfig = []"
proof -
  have a: "rules defaultConfig ''enforce-timeout-awareness'' = Some (Str ''warn'')"
    by (simp add: defaultConfig_def)
  have b: "analyzeDeluge loop_input defaultConfig = [timeout_error 3 (Str ''warn'')]"
    by code_simp
  have c: "analyzeDeluge call_line defaultConfig = []"
    by code_simp
  from loop_call_flagged [of defaultConfig] a b c show ?thesis by simp
qed

text \<open>
  C2.  The scan is total (\<open>analyzeDeluge\<close> is a function with no failing branch, and
  \<open>pop\<close> on the empty stack changes nothing).  At every point of the scan, that is after
  the lines \<open>ls\<close> and the first \<open>k\<close> braces of a following line \<open>l\<close> that is not a
  comment, the stack holds exactly the flags of the unmatched \<open>{\<close> among the braces
  scanned so far on non-comment lines, in order: its depth is their number, and
  \<open>isInsideLoop\<close> holds only if one of these still open \<open>{\<close> was pushed as a loop, never
  on account of a frame that a \<open>}\<close> has closed.
\<close>

theorem scope_stack_safe:
  "analyzeDeluge code config =
     snd (foldl (process_line config) (initial_scope, check_max_lines config (split_lines code))
            (enumerate 0 (split_lines code))) \<and>
   fst (foldl (process_line config) (initial_scope, errs) (enumerate 0 ls)) =
     foldl scope_line initial_scope ls \<and>
   scope_line (foldl scope_line initial_scope ls) l =
     (if is_comment_line l then foldl scope_line initial_scope ls
      else scan_point ls l (length (braces_of l))) \<and>
   map fst (trace_point ls l k) =
     concat (map braces_of (filter (\<lambda>l. \<not> is_comment_line l) ls)) @ take k (braces_of l) \<and>
   braceStack (scan_point ls l k) =
     map (\<lambda>i. snd (trace_point ls l k ! i)) (unmatched (map fst (trace_point ls l k))) \<and>
   length (braceStack (scan_point ls l k)) =
     length (unmatched (map fst (trace_point ls l k))) \<and>
   (isInsideLoop (scan_point ls l k) \<longleftrightarrow>
      (\<exists>i. is_unmatched (map fst (trace_point ls l k)) i \<and> snd (trace_point ls l k ! i))) \<and>
   (braceStack sc = [] \<longrightarrow> brace_step sc (CHR ''}'') = sc) \<and>
   braceStack (brace_step sc (CHR ''{'')) = braceStack sc @ [expectingLoopBrace sc] \<and>
   braceStack (brace_step sc (CHR ''}'')) = butlast (braceStack sc)"
proof (intro conjI)
  show "analyzeDeluge code config =
     snd (foldl (process_line config) (initial_scope, check_max_lines config (split_lines code))
            (enumerate 0 (split_lines code)))"
    by (simp only: analyzeDeluge_def Let_def)
  show "fst (foldl (process_line config) (initial_scope, errs) (enumerate 0 ls)) =
      foldl scope_line initial_scope ls"
    by (rule scope_after_lines)
  show "scope_line (foldl scope_line initial_scope ls) l =
     (if is_comment_line l then foldl scope_line initial_scope ls
      else scan_point ls l (length (braces_of l)))"
    by (simp add: scope_line_def update_scope_def scan_point_def)
  show "map fst (trace_point ls l k) =
     concat (map braces_of (filter (\<lambda>l. \<not> is_comment_line l) ls)) @ take k (braces_of l)"
    by (simp add: trace_point_def map_fst_trace_lines)
  show eq: "braceStack (scan_point ls l k) =
     map (\<lambda>i. snd (trace_point ls l k ! i)) (unmatched (map fst (trace_point ls l k)))"
    by (rule braceStack_scan_point)
  then show "length (braceStack (scan_point ls l k)) =
     length (unmatched (map fst (trace_point ls l k)))"
    by simp
  show "isInsideLoop (scan_point ls l k) \<longleftrightarrow>
      (\<exists>i. is_unmatched (map fst (trace_point ls l k)) i \<and> snd (trace_point ls l k ! i))"
    unfolding isInsideLoop_iff eq by (auto simp: set_unmatched)
  show "braceStack sc = [] \<longrightarrow> brace_step sc (CHR ''}'') = sc"
    by (simp add: pop_empty)
  show "braceStack (brace_step sc (CHR ''{'')) = braceStack sc @ [expectingLoopBrace sc]"
    by (simp add: brace_step_def)
  show "braceStack (brace_step sc (CHR ''}'')) = butlast (braceStack sc)"
    by (simp add: brace_step_def)
qed

theorem scope_stack_safe_witness:
  "analyzeDeluge unbalanced_input defaultConfig = [] \<and>
   braceStack (scan_point [''}''] ''for each r in records {'' 1) = [True] \<and>
   unmatched (map fst (trace_point [''}''] ''for each r in records {'' 1)) = [1] \<and>
   isInsideLoop (scan_point [''}''] ''for each r in records {'' 1) \<and>
   is_unmatched (map fst (trace_point [''}''] ''for each r in records {'' 1)) 1 \<and>
   braceStack (scan_point [''}'', ''for each r in records {'', ''}''] ''}'' 1) = [] \<and>
   unmatched (map fst (trace_point [''}'', ''for each r in records {'', ''}''] ''}'' 1)) = [] \<and>
   \<not> isInsideLoop (scan_point [''}'', ''for each r in records {'', ''}''] ''}'' 1) \<and>
   brace_step initial_scope (CHR ''}'') = initial_scope"
proof -
  have a: "analyzeDeluge unbalanced_input defaultConfig = []" by code_simp
  have u1: "unmatched (map fst (trace_point [''}''] ''for each r in records {'' 1)) = [1]"
    by code_simp
  have t1: "map (\<lambda>i. snd (trace_point [''}''] ''for each r in records {'' 1 ! i)) [1] = [True]"
    by code_simp
  have u2: "unmatched (map fst (trace_point [''}'', ''for each r in records {'', ''}''] ''}'' 1)) = []"
    by code_simp
  have e: "braceStack initial_scope = []" by (simp add: initial_scope_def)
  note s1 = scope_stack_safe [of unbalanced_input defaultConfig "[]" "[''}'']"
      "''for each r in records {''" 1 initial_scope]
  note s2 = scope_stack_safe [of unbalanced_input defaultConfig "[]"
      "[''}'', ''for each r in records {'', ''}'']" "''}''" 1 initial_scope]
  from s1 u1 t1 have b1: "braceStack (scan_point [''}''] ''for each r in records {'' 1) = [True]"
    by simp
  from s2 u2 have b2:
    "braceStack (scan_point [''}'', ''for each r in records {'', ''}''] ''}'' 1) = []"
    by simp
  from s1 e have p: "brace_step initial_scope (CHR ''}'') = initial_scope" by blast
  have i1: "isInsideLoop (scan_point [''}''] ''for each r in records {'' 1)"
    using b1 by (simp add: isInsideLoop_def)
  have i2: "\<not> isInsideLoop (scan_point [''}'', ''for each r in records {'', ''}''] ''}'' 1)"
    using b2 by (simp add: isInsideLoop_def)
  have m: "is_unmatched (map fst (trace_point [''}''] ''for each r in records {'' 1)) 1"
    using u1 set_unmatched [of "map fst (trace_point [''}''] ''for each r in records {'' 1)"]
    by auto
  from a b1 u1 i1 m b2 u2 i2 p show ?thesis by (intro conjI)
qed

text \<open>
  C3.  Once the keyword test of a line that is not a comment finds \<open>for each\<close>, the flag
  is up, and the next \<open>{\<close> that is scanned pushes a frame with \<open>isLoop = true\<close> and
  clears the flag: the first \<open>{\<close> among the braces of that line if it has one, otherwise
  the first \<open>{\<close> of the first later non-comment line that has one.  With the flag down
  and no further keyword, every \<open>{\<close> pushes a plain frame, so the frames pushed as loops
  are at most as many as the lines on which the keyword was found.  The line
  \<open>for each x in list {\<close> leaves the same scope state as the two lines
  \<open>for each x in list\<close> and \<open>{\<close>.
\<close>

theorem pending_loop_flag:
  "fst (foldl (process_line config) (sc, errs) (enumerate n ls)) = foldl scope_line sc ls \<and>
   scope_line sc l =
     (if is_comment_line l then sc else foldl brace_step (scan_keyword sc l) (braces_of l)) \<and>
   (\<not> is_comment_line l \<and> has_for_each l \<and>
      braces_of l = pre @ CHR ''{'' # rest \<and> CHR ''{'' \<notin> set pre \<longrightarrow>
        foldl brace_step (scan_keyword sc l) (pre @ [CHR ''{'']) =
          \<lparr> braceStack = braceStack (foldl brace_step (scan_keyword sc l) pre) @ [True],
            expectingLoopBrace = False \<rparr> \<and>
        (\<forall>x \<in> set (trace_braces (foldl brace_step (scan_keyword sc l) (pre @ [CHR ''{''])) rest).
           \<not> snd x)) \<and>
   (\<not> is_comment_line l \<and> has_for_each l \<and> CHR ''{'' \<notin> set l \<and>
      (\<forall>m \<in> set mid. is_comment_line m \<or> CHR ''{'' \<notin> set m) \<and>
      \<not> is_comment_line l2 \<and> braces_of l2 = pre2 @ CHR ''{'' # rest2 \<and> CHR ''{'' \<notin> set pre2 \<longrightarrow>
        foldl brace_step (scan_keyword (foldl scope_line sc (l # mid)) l2) (pre2 @ [CHR ''{'']) =
          \<lparr> braceStack =
              braceStack (foldl brace_step (scan_keyword (foldl scope_line sc (l # mid)) l2) pre2) @
              [True],
            expectingLoopBrace = False \<rparr>) \<and>
   (\<not> expectingLoopBrace sc \<and> (\<forall>m \<in> set ls. is_comment_line m \<or> \<not> has_for_each m) \<longrightarrow>
      (\<forall>x \<in> set (trace_lines sc ls). \<not> snd x) \<and>
      \<not> expectingLoopBrace (foldl scope_line sc ls)) \<and>
   loop_pushes (trace_lines initial_scope ls) \<le> keyword_lines ls \<and>
   foldl scope_line sc [''for each x in list {''] =
     foldl scope_line sc [''for each x in list'', ''{''] \<and>
   foldl scope_line sc [''for each x in list {''] =
     \<lparr> braceStack = braceStack sc @ [True], expectingLoopBrace = False \<rparr>"
proof (intro conjI impI)
  show "fst (foldl (process_line config) (sc, errs) (enumerate n ls)) = foldl scope_line sc ls"
    by (rule scope_after_lines)
  show "scope_line sc l =
     (if is_comment_line l then sc else foldl brace_step (scan_keyword sc l) (braces_of l))"
    by (simp add: scope_line_def update_scope_def)
next
  assume a: "\<not> is_comment_line l \<and> has_for_each l \<and>
      braces_of l = pre @ CHR ''{'' # rest \<and> CHR ''{'' \<notin> set pre"
  then have e: "expectingLoopBrace (scan_keyword sc l)"
    by (simp add: expecting_scan_keyword)
  from a have p: "CHR ''{'' \<notin> set pre" by simp
  show "foldl brace_step (scan_keyword sc l) (pre @ [CHR ''{'']) =
          \<lparr> braceStack = braceStack (foldl brace_step (scan_keyword sc l) pre) @ [True],
            expectingLoopBrace = False \<rparr>"
    by (rule next_open_consumes [OF e p])
  then have "\<not> expectingLoopBrace (foldl brace_step (scan_keyword sc l) (pre @ [CHR ''{'']))"
    by simp
  then show "\<forall>x \<in> set (trace_braces (foldl brace_step (scan_keyword sc l) (pre @ [CHR ''{''])) rest).
           \<not> snd x"
    using plain_braces by blast
next
  assume a: "\<not> is_comment_line l \<and> has_for_each l \<and> CHR ''{'' \<notin> set l \<and>
      (\<forall>m \<in> set mid. is_comment_line m \<or> CHR ''{'' \<notin> set m) \<and>
      \<not> is_comment_line l2 \<and> braces_of l2 = pre2 @ CHR ''{'' # rest2 \<and> CHR ''{'' \<notin> set pre2"
  then have "expectingLoopBrace (scope_line sc l)"
    by (simp add: scope_line_def update_scope_def expecting_braces expecting_scan_keyword
          braces_of_no_open)
  with a have "expectingLoopBrace (foldl scope_line (scope_line sc l) mid)"
    by (simp add: expecting_kept_lines)
  then have e: "expectingLoopBrace (scan_keyword (foldl scope_line sc (l # mid)) l2)"
    by (simp add: expecting_scan_keyword)
  from a have p: "CHR ''{'' \<notin> set pre2" by simp
  show "foldl brace_step (scan_keyword (foldl scope_line sc (l # mid)) l2) (pre2 @ [CHR ''{'']) =
          \<lparr> braceStack =
              braceStack (foldl brace_step (scan_keyword (foldl scope_line sc (l # mid)) l2) pre2) @
              [True],
            expectingLoopBrace = False \<rparr>"
    by (rule next_open_consumes [OF e p])
next
  assume a: "\<not> expectingLoopBrace sc \<and> (\<forall>m \<in> set ls. is_comment_line m \<or> \<not> has_for_each m)"
  then show "\<forall>x \<in> set (trace_lines sc ls). \<not> snd x"
    using plain_lines by blast
  from a show "\<not> expectingLoopBrace (foldl scope_line sc ls)"
    using plain_lines by blast
next
  from loop_pushes_lines [of initial_scope ls]
  show "loop_pushes (trace_lines initial_scope ls) \<le> keyword_lines ls"
    by (simp add: initial_scope_def split: if_splits)
next
  show "foldl scope_line sc [''for each x in list {''] =
     foldl scope_line sc [''for each x in list'', ''{'']"
    by (simp only: one_line_form two_line_form)
  show "foldl scope_line sc [''for each x in list {''] =
     \<lparr> braceStack = braceStack sc @ [True], expectingLoopBrace = False \<rparr>"
    by (rule one_line_form)
qed

theorem pending_loop_flag_witness:
  "\<not> is_comment_line else_loop_line \<and> has_for_each else_loop_line \<and>
   braces_of else_loop_line = ''}'' @ CHR ''{'' # ''{'' \<and> CHR ''{'' \<notin> set ''}'' \<and>
   foldl brace_step (scan_keyword initial_scope else_loop_line) (''}'' @ [CHR ''{'']) =
     \<lparr> braceStack = [True], expectingLoopBrace = False \<rparr> \<and>
   trace_lines initial_scope [else_loop_line] =
     [(CHR ''}'', True), (CHR ''{'', True), (CHR ''{'', False)] \<and>
   \<not> is_comment_line ''for each x in list'' \<and> has_for_each ''for each x in list'' \<and>
   CHR ''{'' \<notin> set ''for each x in list'' \<and> is_comment_line ''// {'' \<and>
   \<not> is_comment_line ''{ {'' \<and> braces_of ''{ {'' = [] @ CHR ''{'' # ''{'' \<and>
   foldl brace_step
     (scan_keyword (foldl scope_line initial_scope [''for each x in list'', ''// {'']) ''{ {'')
     ([] @ [CHR ''{'']) = \<lparr> braceStack = [True], expectingLoopBrace = False \<rparr> \<and>
   trace_lines initial_scope [''for each x in list'', ''// {'', ''{ {''] =
     [(CHR ''{'', True), (CHR ''{'', False)] \<and>
   loop_pushes (trace_lines initial_scope [''for each x in list'', ''// {'', ''{ {'']) = 1 \<and>
   keyword_lines [''for each x in list'', ''// {'', ''{ {''] = 1"
proof -
  have a: "\<not> is_comment_line else_loop_line" "has_for_each else_loop_line"
    "braces_of else_loop_line = ''}'' @ CHR ''{'' # ''{''" "CHR ''{'' \<notin> set ''}''"
    by code_simp+
  have a0: "braceStack (foldl brace_step (scan_keyword initial_scope else_loop_line) ''}'') = []"
    by code_simp
  have t1: "trace_lines initial_scope [else_loop_line] =
     [(CHR ''}'', True), (CHR ''{'', True), (CHR ''{'', False)]"
    by code_simp
  have b: "\<not> is_comment_line ''for each x in list''" "has_for_each ''for each x in list''"
    "CHR ''{'' \<notin> set ''for each x in list''" "is_comment_line ''// {''"
    "\<not> is_comment_line ''{ {''" "braces_of ''{ {'' = [] @ CHR ''{'' # ''{''"
    by code_simp+
  have b0: "braceStack (foldl brace_step
      (scan_keyword (foldl scope_line initial_scope [''for each x in list'', ''// {'']) ''{ {'')
      []) = []"
    by code_simp
  have t2: "trace_lines initial_scope [''for each x in list'', ''// {'', ''{ {''] =
     [(CHR ''{'', True), (CHR ''{'', False)]"
    by code_simp
  have k: "keyword_lines [''for each x in list'', ''// {'', ''{ {''] = 1"
    by code_simp
  have lp: "loop_pushes (trace_lines initial_scope [''for each x in list'', ''// {'', ''{ {'']) = 1"
    unfolding t2 by (simp add: loop_pushes_def)
  note th1 = pending_loop_flag [of defaultConfig initial_scope "[]" 0 "[]" else_loop_line
      "''}''" "''{''" "[]" "[]" "[]"]
  from th1 a have 1:
    "foldl brace_step (scan_keyword initial_scope else_loop_line) (''}'' @ [CHR ''{'']) =
       \<lparr> braceStack =
           braceStack (foldl brace_step (scan_keyword initial_scope else_loop_line) ''}'') @ [True],
         expectingLoopBrace = False \<rparr>"
    by blast
  note th2 = pending_loop_flag [of defaultConfig initial_scope "[]" 0 "[]"
      "''for each x in list''" "[]" "[]" "[''// {'']" "''{ {''" "[]" "''{''"]
  from b have h2: "\<not> is_comment_line ''for each x in list'' \<and> has_for_each ''for each x in list'' \<and>
      CHR ''{'' \<notin> set ''for each x in list'' \<and>
      (\<forall>m \<in> set [''// {'']. is_comment_line m \<or> CHR ''{'' \<notin> set m) \<and>
      \<not> is_comment_line ''{ {'' \<and> braces_of ''{ {'' = [] @ CHR ''{'' # ''{'' \<and> CHR ''{'' \<notin> set []"
    by simp
  from th2 h2 have 2:
    "foldl brace_step
       (scan_keyword (foldl scope_line initial_scope [''for each x in list'', ''// {'']) ''{ {'')
       ([] @ [CHR ''{'']) =
       \<lparr> braceStack =
           braceStack (foldl brace_step
             (scan_keyword (foldl scope_line initial_scope [''for each x in list'', ''// {''])
                ''{ {'') []) @ [True],
         expectingLoopBrace = False \<rparr>"
    by blast
  from 1 a0 have s1: "foldl brace_step (scan_keyword initial_scope else_loop_line)
      (''}'' @ [CHR ''{'']) = \<lparr> braceStack = [True], expectingLoopBrace = False \<rparr>"
    by simp
  from 2 b0 have s2: "foldl brace_step
     (scan_keyword (foldl scope_line initial_scope [''for each x in list'', ''// {'']) ''{ {'')
     ([] @ [CHR ''{'']) = \<lparr> braceStack = [True], expectingLoopBrace = False \<rparr>"
    by simp
  from a s1 t1 b s2 t2 lp k show ?thesis by (intro conjI)
qed

end
